theory Spec2Isabelle
  imports Main "HOL-Library.Word" "HOL-Library.Multiset" "HOL-Library.Char_ord"
    "HOL-Library.List_Lexorder" "HOL-Library.Code_Target_Numeral"
begin

unbundle bit_operations_syntax

section \<open>Byte formatter\<close>

text \<open>
  Go's \<^verbatim>\<open>int64\<close> is a 64-bit word read as a signed number. The unit constants
  \<^verbatim>\<open>KB .. EB\<close> are \<^verbatim>\<open>1 << (10 * iota)\<close>.
\<close>

type_synonym int64 = "64 word"

definition KB :: int where "KB = 2 ^ 10"
definition MB :: int where "MB = 2 ^ 20"
definition GB :: int where "GB = 2 ^ 30"
definition TB :: int where "TB = 2 ^ 40"
definition PB :: int where "PB = 2 ^ 50"
definition EB :: int where "EB = 2 ^ 60"

text \<open>Decimal digits of a natural number, as \<^verbatim>\<open>%d\<close> prints them.\<close>

definition digit_char :: "nat \<Rightarrow> char" where
  "digit_char d = ''0123456789'' ! (d mod 10)"

fun itoa_nat :: "nat \<Rightarrow> string" where
  "itoa_nat n = (if n < 10 then [digit_char n] else itoa_nat (n div 10) @ [digit_char (n mod 10)])"

declare itoa_nat.simps [simp del]

definition itoa :: "int \<Rightarrow> string" where
  "itoa i = (if i < 0 then CHR ''-'' # itoa_nat (nat (- i)) else itoa_nat (nat i))"

text \<open>
  \<^verbatim>\<open>float64(i)\<close>: an integer below \<open>2^53\<close> in magnitude converts exactly; a larger
  one is rounded to 53 significant bits, ties to even. The result is again an integer.
\<close>

fun excess_bits :: "nat \<Rightarrow> nat" where
  "excess_bits a = (if a < 2 ^ 53 then 0 else Suc (excess_bits (a div 2)))"

declare excess_bits.simps [simp del]

definition round_half_even :: "int \<Rightarrow> int \<Rightarrow> int" where
  "round_half_even num den =
     (let q = num div den; r = num mod den
      in if 2 * r > den \<or> (2 * r = den \<and> odd q) then q + 1 else q)"

definition float64_of_int :: "int \<Rightarrow> int" where
  "float64_of_int i =
     (let a = \<bar>i\<bar>; e = excess_bits (nat a)
      in sgn i * (round_half_even a (2 ^ e) * 2 ^ e))"

text \<open>
  The scaled value \<^verbatim>\<open>n = float64(i) / float64(unit)\<close> is the quotient of an integer
  by a power of two, which binary floating point represents exactly; it is kept as the
  numerator \<open>f\<close> and the exponent \<open>k\<close>, meaning \<open>f / 2^k\<close>. \<^verbatim>\<open>Sprintf("%.0f", n)\<close> and
  \<^verbatim>\<open>Sprintf("%.01f", n)\<close> print the exact value rounded to zero or one decimal, a tie
  going to the even digit.
\<close>

definition fmt_f0 :: "int \<Rightarrow> nat \<Rightarrow> string" where
  "fmt_f0 f k =
     (let m = round_half_even \<bar>f\<bar> (2 ^ k)
      in (if f < 0 then ''-'' else '''') @ itoa_nat (nat m))"

definition fmt_f1 :: "int \<Rightarrow> nat \<Rightarrow> string" where
  "fmt_f1 f k =
     (let m = round_half_even (10 * \<bar>f\<bar>) (2 ^ k)
      in (if f < 0 then ''-'' else '''') @ itoa_nat (nat (m div 10)) @ ''.'' @ [digit_char (nat (m mod 10))])"

definition trim_spaces :: "string \<Rightarrow> string" where
  "trim_spaces s = rev (dropWhile (\<lambda>c. c = CHR '' '') (rev (dropWhile (\<lambda>c. c = CHR '' '') s)))"

text \<open>
  The unit chosen by the \<^verbatim>\<open>switch\<close> of \<^verbatim>\<open>formatBytes\<close>: the suffix \<^verbatim>\<open>eFmt\<close> and the
  binary exponent of the divisor. The cases are tried from \<^verbatim>\<open>EB\<close> down, each with \<^verbatim>\<open>>\<close>.
\<close>

definition unit_of :: "int \<Rightarrow> string \<times> nat" where
  "unit_of i =
     (if i > EB then (''E'', 60)
      else if i > PB then (''P'', 50)
      else if i > TB then (''T'', 40)
      else if i > GB then (''G'', 30)
      else if i > MB then (''M'', 20)
      else if i > KB then (''K'', 10)
      else ('''', 0))"

definition formatBytes :: "int64 \<Rightarrow> string" where
  "formatBytes w =
     (let i = sint w;
          (eFmt, k) = unit_of i;
          f = float64_of_int i;
          one_decimal = (eFmt \<noteq> '''' \<and> \<not> (f \<ge> 10 * 2 ^ k))
      in trim_spaces ((if one_decimal then fmt_f1 f k else fmt_f0 f k) @ eFmt))"

definition is_digits :: "string \<Rightarrow> bool" where
  "is_digits s = (s \<noteq> [] \<and> set s \<subseteq> set ''0123456789'')"

definition units :: "(string \<times> nat) list" where
  "units = [(''K'', 10), (''M'', 20), (''G'', 30), (''T'', 40), (''P'', 50), (''E'', 60)]"

section \<open>Data model\<close>

text \<open>
  \<^verbatim>\<open>os.FileInfo\<close> is an interface with the methods \<^verbatim>\<open>Name\<close>, \<^verbatim>\<open>Size\<close>, \<^verbatim>\<open>Mode\<close>,
  \<^verbatim>\<open>ModTime\<close>, \<^verbatim>\<open>IsDir\<close> and \<^verbatim>\<open>Sys\<close>; a value of it is the record of what they
  return. \<^verbatim>\<open>Sys\<close> is \<open>None\<close> when the type assertion to \<^verbatim>\<open>*syscall.Stat_t\<close> fails.
  A \<^verbatim>\<open>time.Time\<close> is the number of seconds since the zero instant, so that
  \<^verbatim>\<open>IsZero\<close> is equality with \<open>0\<close>.
\<close>

type_synonym time = int

record Stat_t =
  Ctim_Sec :: int64

record FileInfo =
  Name :: string
  Size :: int64
  Mode :: "32 word"
  ModTime :: time
  IsDir :: bool
  Sys :: "Stat_t option"

definition ModeSymlink :: "32 word" where
  "ModeSymlink = push_bit 27 1"

text \<open>
  \<^verbatim>\<open>Node\<close>: the embedded \<^verbatim>\<open>os.FileInfo\<close> (\<open>None\<close> is the nil interface), the path, the
  depth, the recorded error (its text; \<open>None\<close> is nil) and the children. A nil slice and an
  empty one behave alike under \<^verbatim>\<open>range\<close>, \<^verbatim>\<open>len\<close> and \<^verbatim>\<open>append\<close>, the only operations
  the code applies to \<^verbatim>\<open>nodes\<close>, so both are the empty list. The map \<^verbatim>\<open>vpaths\<close> is one
  object shared by every node of a traversal; it is threaded through the functions as a
  set of paths. Go's \<^verbatim>\<open>int\<close> is modelled by \<open>int\<close>: depths and counts stay far
  below \<open>2^63\<close>.
\<close>

datatype Node = Node (info: "FileInfo option") (path: string) (depth: int)
  (err: "string option") (nodes: "Node list")

type_synonym vpaths = "string set"

definition set_info :: "FileInfo \<Rightarrow> Node \<Rightarrow> Node" where
  "set_info fi node = Node (Some fi) (path node) (depth node) (err node) (nodes node)"

definition set_err :: "string \<Rightarrow> Node \<Rightarrow> Node" where
  "set_err e node = Node (info node) (path node) (depth node) (Some e) (nodes node)"

definition set_nodes :: "Node list \<Rightarrow> Node \<Rightarrow> Node" where
  "set_nodes ns node = Node (info node) (path node) (depth node) (err node) ns"

text \<open>\<^verbatim>\<open>New\<close> creates the root: only the path is set, with a fresh \<^verbatim>\<open>vpaths\<close> map.\<close>

definition New :: "string \<Rightarrow> Node \<times> vpaths" where
  "New p = (Node None p 0 None [], {})"

text \<open>
  The interface \<^verbatim>\<open>Fs\<close>. An error return is \<open>Inl\<close> of the error's text.
\<close>

record Fs =
  Stat :: "string \<Rightarrow> string + FileInfo"
  ReadDir :: "string \<Rightarrow> string + string list"

record Options =
  Fs :: Fs
  All :: bool
  DirsOnly :: bool
  FullPath :: bool
  IgnoreCase :: bool
  FollowLink :: bool
  DeepLevel :: int
  Pattern :: string
  IPattern :: string
  MatchDirs :: bool
  Prune :: bool
  Contents :: bool
  ByteSize :: bool
  UnitSize :: bool
  FileMode :: bool
  ShowUid :: bool
  ShowGid :: bool
  LastMod :: bool
  Quotes :: bool
  Inodes :: bool
  Device :: bool
  NoSort :: bool
  VerSort :: bool
  ModSort :: bool
  DirSort :: bool
  NameSort :: bool
  SizeSort :: bool
  CTimeSort :: bool
  ReverSort :: bool
  NoIndent :: bool
  Colorize :: bool
  Color :: "(Node \<Rightarrow> string \<Rightarrow> string) option"
  Now :: time

text \<open>
  What the code calls outside this file: the standard library (\<^verbatim>\<open>path/filepath\<close>,
  \<^verbatim>\<open>os\<close>, \<^verbatim>\<open>regexp\<close>, \<^verbatim>\<open>sort\<close>, \<^verbatim>\<open>os/user\<close>, \<^verbatim>\<open>time\<close>, \<^verbatim>\<open>os/exec\<close>) and the
  functions of the package whose files are not part of the sources at hand (the
  comparators other than \<^verbatim>\<open>CTimeSort\<close>, \<^verbatim>\<open>getStat\<close>, \<^verbatim>\<open>ANSIColor\<close>). They are parameters.

  \<^item> \<open>regexp_Compile\<close> gives \<open>None\<close> for a pattern that does not compile, and else the
    compiled expression as the function from a text to its leftmost match (\<open>None\<close> when
    nothing matches);
  \<^item> \<open>sort_Sort less xs\<close> is \<^verbatim>\<open>sort.Sort\<close> on the slice \<open>xs\<close> with \<^verbatim>\<open>Less(i, j)\<close> being
    \<open>less (xs ! i) (xs ! j)\<close>;
  \<^item> \<open>file_mime\<close> is the standard output of the \<^verbatim>\<open>file\<close> command and \<open>file_Read\<close> the
    bytes of one \<^verbatim>\<open>Read\<close> into the 60-byte buffer (\<open>None\<close> when \<^verbatim>\<open>Open\<close> or \<^verbatim>\<open>Read\<close>
    fails).
\<close>

record Env =
  filepath_Abs :: "string \<Rightarrow> string option"
  filepath_Clean :: "string \<Rightarrow> string"
  filepath_Join :: "string \<Rightarrow> string \<Rightarrow> string"
  filepath_Base :: "string \<Rightarrow> string"
  filepath_EvalSymlinks :: "string \<Rightarrow> string option"
  os_Readlink :: "string \<Rightarrow> string option"
  regexp_Compile :: "string \<Rightarrow> (string \<Rightarrow> string option) option"
  sort_Sort :: "(Node \<Rightarrow> Node \<Rightarrow> bool) \<Rightarrow> Node list \<Rightarrow> Node list"
  ModSort_fn :: "FileInfo option \<Rightarrow> FileInfo option \<Rightarrow> bool"
  DirSort_fn :: "FileInfo option \<Rightarrow> FileInfo option \<Rightarrow> bool"
  VerSort_fn :: "FileInfo option \<Rightarrow> FileInfo option \<Rightarrow> bool"
  SizeSort_fn :: "FileInfo option \<Rightarrow> FileInfo option \<Rightarrow> bool"
  NameSort_fn :: "FileInfo option \<Rightarrow> FileInfo option \<Rightarrow> bool"
  getStat :: "Node \<Rightarrow> bool \<times> int \<times> int \<times> int \<times> int"
  ANSIColor :: "Node \<Rightarrow> string \<Rightarrow> string"
  user_LookupId :: "string \<Rightarrow> string option"
  FileMode_String :: "32 word \<Rightarrow> string"
  time_Year :: "time \<Rightarrow> int"
  time_Format :: "time \<Rightarrow> string \<Rightarrow> string"
  time_Now :: time
  file_mime :: "string \<Rightarrow> string"
  file_Read :: "string \<Rightarrow> string option"

text \<open>
  A call returns, panics (a method called on the nil \<^verbatim>\<open>FileInfo\<close>, a negative length
  given to \<^verbatim>\<open>unsafe.String\<close>), or, for the recursions that follow the file system, runs
  out of the fuel that bounds their depth.
\<close>

datatype 'a result = Ok 'a | Panic | OutOfFuel

definition bind :: "'a result \<Rightarrow> ('a \<Rightarrow> 'b result) \<Rightarrow> 'b result" where
  "bind r f = (case r of Ok x \<Rightarrow> f x | Panic \<Rightarrow> Panic | OutOfFuel \<Rightarrow> OutOfFuel)"

section \<open>Matcher\<close>

text \<open>
  \<^verbatim>\<open>Regexp.FindString\<close> returns the leftmost match, and the empty string when there is
  none.
\<close>

definition FindString :: "(string \<Rightarrow> string option) \<Rightarrow> string \<Rightarrow> string" where
  "FindString re s = (case re s of None \<Rightarrow> '''' | Some m \<Rightarrow> m)"

definition match :: "Env \<Rightarrow> string \<Rightarrow> Options \<Rightarrow> Node \<Rightarrow> bool result" where
  "match env pattern opt node =
     (case info node of
        None \<Rightarrow> Panic
      | Some fi \<Rightarrow>
          (let prefix = (if IgnoreCase opt then ''(?i)'' else '''');
               search = (if CHR ''*'' \<in> set pattern then path node else Name fi)
           in Ok (case regexp_Compile env (prefix @ pattern) of
                    None \<Rightarrow> False
                  | Some re \<Rightarrow> FindString re search \<noteq> '''')))"

text \<open>The short-circuit conjunction \<^verbatim>\<open>c && node.match(pattern, opts)\<close>.\<close>

definition and_match :: "bool \<Rightarrow> Env \<Rightarrow> string \<Rightarrow> Options \<Rightarrow> Node \<Rightarrow> bool result" where
  "and_match c env pattern opt node = (if c then match env pattern opt node else Ok False)"

section \<open>Sorter\<close>

text \<open>
  \<^verbatim>\<open>CTimeSort\<close> as the Linux and BSD files define it: a nil operand decides by itself,
  the comparison falls back on \<^verbatim>\<open>ModSort\<close> unless both \<^verbatim>\<open>Sys()\<close> values are
  \<^verbatim>\<open>*syscall.Stat_t\<close>, and else the change times are compared in seconds.
\<close>

definition CTimeSort_fn :: "Env \<Rightarrow> FileInfo option \<Rightarrow> FileInfo option \<Rightarrow> bool" where
  "CTimeSort_fn env f1 f2 =
     (case (f1, f2) of
        (Some a, Some b) \<Rightarrow>
          (case (Sys a, Sys b) of
             (Some s1, Some s2) \<Rightarrow> sint (Ctim_Sec s1) < sint (Ctim_Sec s2)
           | _ \<Rightarrow> ModSort_fn env f1 f2)
      | _ \<Rightarrow> f2 = None)"

text \<open>The \<^verbatim>\<open>switch\<close> of \<^verbatim>\<open>sort\<close>: the first option set, in this order, names the comparator.\<close>

definition sort_fn :: "Env \<Rightarrow> Options \<Rightarrow> FileInfo option \<Rightarrow> FileInfo option \<Rightarrow> bool" where
  "sort_fn env opts =
     (if ModSort opts then ModSort_fn env
      else if CTimeSort opts then CTimeSort_fn env
      else if DirSort opts then DirSort_fn env
      else if VerSort opts then VerSort_fn env
      else if SizeSort opts then SizeSort_fn env
      else NameSort_fn env)"

text \<open>
  Modelled from the spec: the type \<^verbatim>\<open>ByFunc\<close>, whose file is missing. Its \<^verbatim>\<open>Less\<close> is the
  "comparator \<^verbatim>\<open>less(a, b) -> bool\<close> over two metadata records" of the two children.
\<close>

definition ByFunc_Less :: "(FileInfo option \<Rightarrow> FileInfo option \<Rightarrow> bool) \<Rightarrow> Node \<Rightarrow> Node \<Rightarrow> bool" where
  "ByFunc_Less fn a b = fn (info a) (info b)"

text \<open>\<^verbatim>\<open>sort.Reverse\<close> wraps an interface so that \<^verbatim>\<open>Less(i, j)\<close> is the inner \<^verbatim>\<open>Less(j, i)\<close>.\<close>

definition sort_Reverse :: "('a \<Rightarrow> 'a \<Rightarrow> bool) \<Rightarrow> 'a \<Rightarrow> 'a \<Rightarrow> bool" where
  "sort_Reverse lt a b = lt b a"

definition Node_sort :: "Env \<Rightarrow> Options \<Rightarrow> Node list \<Rightarrow> Node list" where
  "Node_sort env opts ns =
     (let fn = sort_fn env opts
      in if ReverSort opts then sort_Sort env (sort_Reverse (ByFunc_Less fn)) ns
         else sort_Sort env (ByFunc_Less fn) ns)"

section \<open>Size aggregator\<close>

text \<open>
  \<^verbatim>\<open>dirRecursiveSize\<close> with its loop over the children. The accumulator of the loop is
  the named results \<^verbatim>\<open>size\<close> (here \<open>sz\<close>) and \<^verbatim>\<open>err\<close> (here \<open>er\<close>). Sizes are \<^verbatim>\<open>int64\<close> and add
  with wrap-around.
\<close>

fun dirRecursiveSize :: "Options \<Rightarrow> Node \<Rightarrow> (int64 \<times> string option) result"
  and dirRecursiveSize_loop ::
    "Options \<Rightarrow> Node list \<Rightarrow> int64 \<Rightarrow> string option \<Rightarrow> (int64 \<times> string option) result"
where
  "dirRecursiveSize opts (Node fi p d e ns) =
     dirRecursiveSize_loop opts ns 0
       (if DeepLevel opts > 0 \<and> d \<ge> DeepLevel opts then Some ''Depth too high'' else None)"
| "dirRecursiveSize_loop opts [] sz er = Ok (sz, er)"
| "dirRecursiveSize_loop opts (nnode # rest) sz er =
     (if err nnode \<noteq> None then dirRecursiveSize_loop opts rest sz (err nnode)
      else case info nnode of
        None \<Rightarrow> Panic
      | Some nfi \<Rightarrow>
          if \<not> IsDir nfi then dirRecursiveSize_loop opts rest (sz + Size nfi) er
          else (case dirRecursiveSize opts nnode of
                  Ok (nsize, e) \<Rightarrow>
                    dirRecursiveSize_loop opts rest (sz + nsize) (if e \<noteq> None then e else er)
                | Panic \<Rightarrow> Panic
                | OutOfFuel \<Rightarrow> OutOfFuel))"

section \<open>Visitor\<close>

definition HasPrefix :: "string \<Rightarrow> string \<Rightarrow> bool" where
  "HasPrefix s p = (take (length p) s = p)"

text \<open>
  The directory-match step of \<^verbatim>\<open>Visit\<close>, before the children are listed: \<open>None\<close> is
  the early \<^verbatim>\<open>return\<close> on an exclusion match, \<open>Some dirMatch\<close> goes on.
\<close>

definition match_dirs :: "Env \<Rightarrow> Options \<Rightarrow> Node \<Rightarrow> bool option result" where
  "match_dirs env opts node =
     (if depth node \<noteq> 0 \<and> MatchDirs opts then
        (if Pattern opts \<noteq> '''' then
           bind (match env (Pattern opts) opts node) (\<lambda>m. Ok (Some m))
         else
           bind (and_match (IPattern opts \<noteq> '''') env (IPattern opts) opts node)
             (\<lambda>m. if m then Ok None else Ok (Some False)))
      else Ok (Some False))"

text \<open>
  The filter applied to a visited child: \<open>False\<close> is a \<^verbatim>\<open>continue\<close> that drops it.
  \<open>f\<close> is the file count its visit returned.
\<close>

definition keep_child :: "Env \<Rightarrow> Options \<Rightarrow> bool \<Rightarrow> Node \<Rightarrow> int \<Rightarrow> bool result" where
  "keep_child env opts dirMatch nnode f =
     (if err nnode \<noteq> None then Ok True
      else case info nnode of
        None \<Rightarrow> Panic
      | Some nfi \<Rightarrow>
          if IsDir nfi then
            (if Prune opts \<and> f = 0 then Ok False
             else bind (and_match (MatchDirs opts \<and> IPattern opts \<noteq> '''') env (IPattern opts) opts nnode)
                    (\<lambda>m. Ok (\<not> m)))
          else
            (if DirsOnly opts then Ok False
             else bind (and_match (\<not> dirMatch \<and> Pattern opts \<noteq> '''') env (Pattern opts) opts nnode)
                    (\<lambda>m. if \<not> dirMatch \<and> Pattern opts \<noteq> '''' \<and> \<not> m then Ok False
                         else bind (and_match (IPattern opts \<noteq> '''') env (IPattern opts) opts nnode)
                                (\<lambda>m'. Ok (\<not> m')))))"

text \<open>
  The loop over the listed names. \<open>visit\<close> is the recursive call; \<open>ns\<close>, \<open>dirs\<close> and
  \<open>files\<close> are \<^verbatim>\<open>node.nodes\<close> and the two named results as the loop updates them.
\<close>

primrec Visit_children ::
  "(Node \<Rightarrow> vpaths \<Rightarrow> (Node \<times> int \<times> int \<times> vpaths) result) \<Rightarrow> Env \<Rightarrow> Options \<Rightarrow> Node \<Rightarrow> bool \<Rightarrow>
   string list \<Rightarrow> Node list \<Rightarrow> int \<Rightarrow> int \<Rightarrow> vpaths \<Rightarrow> (Node list \<times> int \<times> int \<times> vpaths) result"
where
  "Visit_children visit env opts node dirMatch [] ns dirs files vp = Ok (ns, dirs, files, vp)"
| "Visit_children visit env opts node dirMatch (name # rest) ns dirs files vp =
     (if \<not> All opts \<and> HasPrefix name ''.'' then
        Visit_children visit env opts node dirMatch rest ns dirs files vp
      else
        bind (visit (Node None (filepath_Join env (path node) name) (depth node + 1) None []) vp)
          (\<lambda>(nnode, d, f, vp').
             bind (keep_child env opts dirMatch nnode f)
               (\<lambda>keep. if keep
                  then Visit_children visit env opts node dirMatch rest (ns @ [nnode]) (dirs + d) (files + f) vp'
                  else Visit_children visit env opts node dirMatch rest ns dirs files vp')))"

text \<open>
  \<^verbatim>\<open>Visit\<close>. The first argument bounds the depth of the recursion. The result is the
  node as the call leaves it, the counts \<^verbatim>\<open>dirs\<close> and \<^verbatim>\<open>files\<close>, and the visited paths.
\<close>

primrec Visit :: "nat \<Rightarrow> Env \<Rightarrow> Options \<Rightarrow> Node \<Rightarrow> vpaths \<Rightarrow> (Node \<times> int \<times> int \<times> vpaths) result" where
  "Visit 0 env opts node vp = OutOfFuel"
| "Visit (Suc n) env opts node vp =
     (let vp1 = (case filepath_Abs env (path node) of
                   Some p \<Rightarrow> insert (filepath_Clean env p) vp
                 | None \<Rightarrow> vp)
      in case Stat (Fs opts) (path node) of
           Inl e \<Rightarrow> Ok (set_err e node, 0, 0, vp1)
         | Inr fi \<Rightarrow>
             (let node1 = set_info fi node
              in if \<not> IsDir fi then Ok (node1, 0, 1, vp1)
                 else
                   (let dirs = (if depth node \<noteq> 0 then 1 else 0)
                    in if DeepLevel opts > 0 \<and> DeepLevel opts \<le> depth node then Ok (node1, dirs, 0, vp1)
                       else
                         bind (match_dirs env opts node1)
                           (\<lambda>dm. case dm of
                              None \<Rightarrow> Ok (node1, dirs, 0, vp1)
                            | Some dirMatch \<Rightarrow>
                                (case ReadDir (Fs opts) (path node) of
                                   Inl e \<Rightarrow> Ok (set_err e node1, dirs, 0, vp1)
                                 | Inr names \<Rightarrow>
                                     bind (Visit_children (Visit n env opts) env opts node1 dirMatch
                                             names [] dirs 0 vp1)
                                       (\<lambda>(ns, d, f, vp2).
                                          Ok (set_nodes (if NoSort opts then ns else Node_sort env opts ns) node1,
                                              d, f, vp2)))))))"

section \<open>Renderer\<close>

text \<open>
  \<^verbatim>\<open>strings.Split(s, ": ")\<close>: the pieces between the occurrences of the separator, found
  from left to right without overlap. \<open>acc\<close> is the piece being read, reversed.
\<close>

fun Split_colon :: "string \<Rightarrow> string \<Rightarrow> string list" where
  "Split_colon acc [] = [rev acc]"
| "Split_colon acc [c] = [rev (c # acc)]"
| "Split_colon acc (c # d # s) =
     (if c = CHR '':'' \<and> d = CHR '' '' then rev acc # Split_colon [] s
      else Split_colon (c # acc) (d # s))"

text \<open>The message of an error line: \<^verbatim>\<open>msgs[1]\<close> when there are at least two pieces.\<close>

definition short_error :: "string \<Rightarrow> string" where
  "short_error e = (case Split_colon [] e of _ # m # _ \<Rightarrow> m | _ \<Rightarrow> e)"

text \<open>
  What is written to \<^verbatim>\<open>OutFile\<close>, one entry for each write: the line of a node with an
  error, an annotation block, the glyphs a parent writes before a child, a name with
  its link target, the pieces of a content preview, and the end of a node's line.
\<close>

datatype chunk = ErrorLine string | Props string | Branch string | NameText string
  | Preview string | EndLine

fun chunk_text :: "chunk \<Rightarrow> string" where
  "chunk_text (ErrorLine s) = s"
| "chunk_text (Props s) = s"
| "chunk_text (Branch s) = s"
| "chunk_text (NameText s) = s"
| "chunk_text (Preview s) = s"
| "chunk_text EndLine = [CHR 0x0A]"

definition output_text :: "chunk list \<Rightarrow> string" where
  "output_text cs = concat (map chunk_text cs)"

text \<open>
  The widths of \<^verbatim>\<open>%4s\<close>, \<^verbatim>\<open>%-8s\<close> and the like count characters: the bytes of a UTF-8
  text that are not continuation bytes.
\<close>

definition RuneCount :: "string \<Rightarrow> nat" where
  "RuneCount s = length (filter (\<lambda>c. (of_char c :: nat) div 64 \<noteq> 2) s)"

definition pad_left :: "nat \<Rightarrow> string \<Rightarrow> string" where
  "pad_left w s = replicate (w - RuneCount s) CHR '' '' @ s"

definition pad_right :: "nat \<Rightarrow> string \<Rightarrow> string" where
  "pad_right w s = s @ replicate (w - RuneCount s) CHR '' ''"

fun Join :: "string list \<Rightarrow> string \<Rightarrow> string" where
  "Join [] sep = ''''"
| "Join [s] sep = s"
| "Join (s # t # ss) sep = s @ sep @ Join (t # ss) sep"

definition color :: "Env \<Rightarrow> Options \<Rightarrow> Node \<Rightarrow> string \<Rightarrow> string" where
  "color env opts node s = (case Color opts of None \<Rightarrow> ANSIColor env node s | Some f \<Rightarrow> f node s)"

text \<open>The annotations of a node that is not a directory, in the order of the code.\<close>

definition size_prop :: "Options \<Rightarrow> int64 \<Rightarrow> string" where
  "size_prop opts sz =
     (if UnitSize opts then pad_left 4 (formatBytes sz) else pad_left 11 (itoa (sint sz)))"

definition file_props :: "Env \<Rightarrow> Options \<Rightarrow> Node \<Rightarrow> FileInfo \<Rightarrow> string list" where
  "file_props env opts node fi =
     (case getStat env node of (ok, inode, device, uid, gid) \<Rightarrow>
        (if ok \<and> Inodes opts then [itoa inode] else [])
        @ (if ok \<and> Device opts then [pad_left 3 (itoa device)] else [])
        @ (if FileMode opts then [FileMode_String env (Mode fi)] else [])
        @ (if ok \<and> ShowUid opts then
             [pad_right 8 (case user_LookupId env (itoa uid) of None \<Rightarrow> itoa uid | Some u \<Rightarrow> u)]
           else [])
        @ (if ok \<and> ShowGid opts then [pad_right 4 (itoa gid)] else [])
        @ (if ByteSize opts \<or> UnitSize opts then [size_prop opts (Size fi)] else [])
        @ (if LastMod opts then
             (let t = (if Now opts = 0 then time_Now env else Now opts);
                  format = (if time_Year env (ModTime fi) \<noteq> time_Year env t
                            then ''Jan 02  2006'' else ''Jan 02 15:04'')
              in [time_Format env (ModTime fi) format])
           else []))"

text \<open>The annotations of a directory: its recursive size, or blanks of the same width.\<close>

definition dir_props :: "Options \<Rightarrow> Node \<Rightarrow> string list result" where
  "dir_props opts node =
     (if ByteSize opts \<or> UnitSize opts then
        bind (dirRecursiveSize opts node)
          (\<lambda>(rsize, er).
             Ok [if er \<noteq> None \<and> sint rsize \<le> 0
                 then (if UnitSize opts then replicate 4 CHR '' '' else replicate 11 CHR '' '')
                 else size_prop opts rsize])
      else Ok [])"

definition props :: "Env \<Rightarrow> Options \<Rightarrow> Node \<Rightarrow> FileInfo \<Rightarrow> string list result" where
  "props env opts node fi =
     (if \<not> IsDir fi then Ok (file_props env opts node fi) else dir_props opts node)"

definition props_chunk :: "string list \<Rightarrow> chunk list" where
  "props_chunk ps = (if ps = [] then [] else [Props (''['' @ Join ps '' '' @ '']  '')])"

text \<open>The name of a node without error: path or base name, quoted and coloured.\<close>

definition display_name :: "Env \<Rightarrow> Options \<Rightarrow> Node \<Rightarrow> FileInfo \<Rightarrow> string" where
  "display_name env opts node fi =
     (let name = (if depth node = 0 \<or> FullPath opts then path node else Name fi);
          name = (if Quotes opts then [CHR 0x22] @ name @ [CHR 0x22] else name)
      in if Colorize opts then color env opts node name else name)"

text \<open>The name on the line of a node with an error.\<close>

definition error_name :: "Env \<Rightarrow> Options \<Rightarrow> Node \<Rightarrow> string" where
  "error_name env opts node =
     (if \<not> FullPath opts then filepath_Base env (path node) else path node)"

definition error_line :: "Env \<Rightarrow> Options \<Rightarrow> Node \<Rightarrow> string \<Rightarrow> string" where
  "error_line env opts node e =
     error_name env opts node @ '' ['' @ short_error e @ '']'' @ [CHR 0x0A]"

text \<open>
  The symbolic-link step. It yields the name as extended, the children the node has
  after the step, and the visited paths. \<open>visit\<close> is \<^verbatim>\<open>Visit\<close>, called on the fresh node
  \<^verbatim>\<open>inf\<close> whose depth is the zero value.
\<close>

definition symlink_step ::
  "(Node \<Rightarrow> vpaths \<Rightarrow> (Node \<times> int \<times> int \<times> vpaths) result) \<Rightarrow> Env \<Rightarrow> Options \<Rightarrow> Node \<Rightarrow>
   FileInfo \<Rightarrow> string \<Rightarrow> vpaths \<Rightarrow> (string \<times> Node list \<times> vpaths) result"
where
  "symlink_step visit env opts node fi name vp =
     (if Mode fi AND ModeSymlink = ModeSymlink then
        (let vtarget0 = (case os_Readlink env (path node) of Some t \<Rightarrow> t | None \<Rightarrow> path node);
             targetPath = (case filepath_EvalSymlinks env (path node) of Some t \<Rightarrow> t | None \<Rightarrow> vtarget0);
             tfi = (case Stat (Fs opts) targetPath of Inr i \<Rightarrow> Some i | Inl e \<Rightarrow> None);
             vtarget = (if Colorize opts \<and> tfi \<noteq> None
                        then color env opts (Node tfi vtarget0 0 None []) vtarget0 else vtarget0);
             name1 = name @ '' -> '' @ vtarget
         in if FollowLink opts then
              (case (filepath_Abs env targetPath, tfi) of
                 (Some p, Some i) \<Rightarrow>
                   if IsDir i then
                     (if filepath_Clean env p \<notin> vp then
                        bind (visit (Node (Some i) targetPath 0 None []) vp)
                          (\<lambda>(inf, d, f, vp'). Ok (name1, nodes inf, vp'))
                      else Ok (name1 @ '' [recursive, not followed]'', nodes node, vp))
                   else Ok (name1, nodes node, vp)
               | _ \<Rightarrow> Ok (name1, nodes node, vp))
            else Ok (name1, nodes node, vp))
      else Ok (name, nodes node, vp))"

text \<open>
  The content preview. \<^verbatim>\<open>unsafe.String\<close> is given the length of the command's output
  less one, and panics on the negative length when there is no output.
\<close>

definition first_newline :: "string \<Rightarrow> nat option" where
  "first_newline bs =
     (let k = length (takeWhile (\<lambda>c. c \<noteq> CHR 0x0A \<and> c \<noteq> CHR 0x0D) bs)
      in if k < length bs then Some k else None)"

definition preview :: "Env \<Rightarrow> Options \<Rightarrow> Node \<Rightarrow> chunk list result" where
  "preview env opts node =
     (if \<not> Contents opts then Ok []
      else
        (let mime = file_mime env (path node)
         in if mime = [] then Panic
            else if butlast mime \<noteq> ''text/plain'' then Ok []
            else (case file_Read env (path node) of
                    None \<Rightarrow> Ok []
                  | Some bytes \<Rightarrow>
                      (let buf = take 60 bytes;
                           n = (case first_newline buf of Some k \<Rightarrow> k | None \<Rightarrow> length buf);
                           hasMore = (n = 60);
                           n = (if hasMore then 59 else n)
                       in Ok [Preview '' => `'', Preview (take n buf),
                              Preview (if hasMore then [CHR 0xE2, CHR 0x80, CHR 0xA6, CHR ''`''] else ''`'')]))))"

text \<open>The glyphs, in UTF-8: the bar, the corner and the tee, each four columns wide.\<close>

definition glyph_bar :: string where
  "glyph_bar = [CHR 0xE2, CHR 0x94, CHR 0x82] @ ''   ''"

definition glyph_corner :: string where
  "glyph_corner = [CHR 0xE2, CHR 0x94, CHR 0x94, CHR 0xE2, CHR 0x94, CHR 0x80, CHR 0xE2, CHR 0x94, CHR 0x80] @ '' ''"

definition glyph_tee :: string where
  "glyph_tee = [CHR 0xE2, CHR 0x94, CHR 0x9C, CHR 0xE2, CHR 0x94, CHR 0x80, CHR 0xE2, CHR 0x94, CHR 0x80] @ '' ''"

text \<open>
  The loop over the children. \<open>pr\<close> is the recursive call and \<open>add\<close> the variable of that
  name. The children come back as their own calls left them.
\<close>

primrec print_children ::
  "(string \<Rightarrow> Node \<Rightarrow> vpaths \<Rightarrow> (chunk list \<times> Node \<times> vpaths) result) \<Rightarrow> Options \<Rightarrow> string \<Rightarrow> string \<Rightarrow>
   Node list \<Rightarrow> vpaths \<Rightarrow> (chunk list \<times> Node list \<times> vpaths) result"
where
  "print_children pr opts indent add [] vp = Ok ([], [], vp)"
| "print_children pr opts indent add (nnode # rest) vp =
     (let is_last = (rest = []);
          glyph = (if NoIndent opts then []
                   else [Branch (indent @ (if is_last then glyph_corner else glyph_tee))]);
          add' = (if NoIndent opts then '''' else if is_last then ''    '' else add)
      in bind (pr (indent @ add') nnode vp)
           (\<lambda>(out, nnode', vp1).
              bind (print_children pr opts indent add' rest vp1)
                (\<lambda>(outs, rest', vp2). Ok (glyph @ out @ outs, nnode' # rest', vp2))))"

text \<open>
  \<^verbatim>\<open>print\<close>. The first argument bounds the depth of the recursion, of \<^verbatim>\<open>print\<close> itself
  and of the \<^verbatim>\<open>Visit\<close> it starts on a followed link. The result is what was written,
  the node as the call leaves it, and the visited paths.
\<close>

primrec print ::
  "nat \<Rightarrow> Env \<Rightarrow> Options \<Rightarrow> string \<Rightarrow> Node \<Rightarrow> vpaths \<Rightarrow> (chunk list \<times> Node \<times> vpaths) result"
where
  "print 0 env opts indent node vp = OutOfFuel"
| "print (Suc n) env opts indent node vp =
     (case err node of
        Some e \<Rightarrow> Ok ([ErrorLine (error_line env opts node e)], node, vp)
      | None \<Rightarrow>
          (case info node of
             None \<Rightarrow> Panic
           | Some fi \<Rightarrow>
               bind (props env opts node fi)
                 (\<lambda>ps. bind (symlink_step (Visit n env opts) env opts node fi
                                (display_name env opts node fi) vp)
                   (\<lambda>(name, ns, vp1). bind (preview env opts node)
                     (\<lambda>pv. bind (print_children (print n env opts) opts indent glyph_bar ns vp1)
                       (\<lambda>(outs, ns', vp2).
                          Ok (props_chunk ps @ [NameText name] @ pv @ [EndLine] @ outs,
                              set_nodes ns' node, vp2)))))))"

text \<open>\<^verbatim>\<open>Print\<close> starts \<^verbatim>\<open>print\<close> with the empty indent.\<close>

definition Print :: "nat \<Rightarrow> Env \<Rightarrow> Options \<Rightarrow> Node \<Rightarrow> vpaths \<Rightarrow> (chunk list \<times> Node \<times> vpaths) result" where
  "Print n env opts node vp = print n env opts '''' node vp"

section \<open>The sort of the standard library\<close>

text \<open>
  \<^verbatim>\<open>sort.Sort\<close> as the Go releases that can build this program implement it (the
  program calls \<^verbatim>\<open>unsafe.String\<close>, which needs Go 1.20): the pattern-defeating
  quicksort of the package \<^verbatim>\<open>sort\<close>, working on the data through \<^verbatim>\<open>Less\<close> and
  \<^verbatim>\<open>Swap\<close> only. The data is the list, \<open>lt\<close> compares two elements, and an index is
  always within the slice. The functions carry the names they have in the package.
\<close>

definition Less :: "('a \<Rightarrow> 'a \<Rightarrow> bool) \<Rightarrow> 'a list \<Rightarrow> nat \<Rightarrow> nat \<Rightarrow> bool" where
  "Less lt xs i j = lt (xs ! i) (xs ! j)"

definition Swap :: "nat \<Rightarrow> nat \<Rightarrow> 'a list \<Rightarrow> 'a list" where
  "Swap i j xs = xs[i := xs ! j, j := xs ! i]"

text \<open>
  \<^verbatim>\<open>insertionSort\<close>: the inner loop moves the element at \<open>j\<close> to the left while it is
  less than its left neighbour, the outer loop does so for each index after \<open>a\<close>.
\<close>

function insertion_inner :: "('a \<Rightarrow> 'a \<Rightarrow> bool) \<Rightarrow> nat \<Rightarrow> nat \<Rightarrow> 'a list \<Rightarrow> 'a list" where
  "insertion_inner lt a j xs =
     (if j > a \<and> Less lt xs j (j - 1) then insertion_inner lt a (j - 1) (Swap j (j - 1) xs) else xs)"
  by pat_completeness auto
termination
  by (relation "measure (\<lambda>(lt, a, j, xs). j)") auto

declare insertion_inner.simps [simp del]

function insertion_outer :: "('a \<Rightarrow> 'a \<Rightarrow> bool) \<Rightarrow> nat \<Rightarrow> nat \<Rightarrow> nat \<Rightarrow> 'a list \<Rightarrow> 'a list" where
  "insertion_outer lt a b i xs =
     (if i < b then insertion_outer lt a b (Suc i) (insertion_inner lt a i xs) else xs)"
  by pat_completeness auto
termination
  by (relation "measure (\<lambda>(lt, a, b, i, xs). b - i)") auto

declare insertion_outer.simps [simp del]

definition insertionSort :: "('a \<Rightarrow> 'a \<Rightarrow> bool) \<Rightarrow> 'a list \<Rightarrow> nat \<Rightarrow> nat \<Rightarrow> 'a list" where
  "insertionSort lt xs a b = insertion_outer lt a b (a + 1) xs"

text \<open>\<^verbatim>\<open>siftDown\<close> and \<^verbatim>\<open>heapSort\<close>.\<close>

function siftDown :: "('a \<Rightarrow> 'a \<Rightarrow> bool) \<Rightarrow> nat \<Rightarrow> nat \<Rightarrow> nat \<Rightarrow> 'a list \<Rightarrow> 'a list" where
  "siftDown lt root hi first xs =
     (let child = 2 * root + 1
      in if child \<ge> hi then xs
         else
           (let child = (if child + 1 < hi \<and> Less lt xs (first + child) (first + child + 1)
                         then child + 1 else child)
            in if \<not> Less lt xs (first + root) (first + child) then xs
               else siftDown lt child hi first (Swap (first + root) (first + child) xs)))"
  by pat_completeness auto
termination
  by (relation "measure (\<lambda>(lt, root, hi, first, xs). hi - root)") (auto simp: Let_def)

declare siftDown.simps [simp del]

definition heapSort :: "('a \<Rightarrow> 'a \<Rightarrow> bool) \<Rightarrow> 'a list \<Rightarrow> nat \<Rightarrow> nat \<Rightarrow> 'a list" where
  "heapSort lt xs a b =
     (let first = a; hi = b - a;
          xs = fold (\<lambda>i ys. siftDown lt i hi first ys) (rev [0..<Suc ((hi - 1) div 2)]) xs
      in fold (\<lambda>i ys. siftDown lt 0 i first (Swap first (first + i) ys)) (rev [0..<hi]) xs)"

text \<open>
  \<^verbatim>\<open>breakPatterns\<close> swaps three elements around the middle with elements chosen by
  the generator \<^verbatim>\<open>xorshift\<close>, which is seeded with the length: the sort of a given
  slice with a given comparison is always the same.
\<close>

fun bits_Len :: "nat \<Rightarrow> nat" where
  "bits_Len n = (if n = 0 then 0 else Suc (bits_Len (n div 2)))"

declare bits_Len.simps [simp del]

definition xorshift_Next :: "64 word \<Rightarrow> 64 word" where
  "xorshift_Next r =
     (let r = r XOR push_bit 13 r; r = r XOR drop_bit 7 r; r = r XOR push_bit 17 r in r)"

definition breakPatterns :: "'a list \<Rightarrow> nat \<Rightarrow> nat \<Rightarrow> 'a list" where
  "breakPatterns xs a b =
     (let len = b - a
      in if len \<ge> 8 then
           (let modulus = (2 :: nat) ^ bits_Len len;
                idx = a + (len div 4) * 2 - 1;
                other = (\<lambda>r. let k = unat (r AND (of_nat modulus - 1))
                              in if k \<ge> len then k - len else k);
                r1 = xorshift_Next (of_nat len);
                r2 = xorshift_Next r1;
                r3 = xorshift_Next r2
            in Swap (idx + 1) (a + other r3) (Swap idx (a + other r2) (Swap (idx - 1) (a + other r1) xs)))
         else xs)"

text \<open>
  \<^verbatim>\<open>choosePivot\<close> with \<^verbatim>\<open>order2\<close>, \<^verbatim>\<open>median\<close> and \<^verbatim>\<open>medianAdjacent\<close>; the counter
  \<^verbatim>\<open>swaps\<close> is passed along.
\<close>

datatype sortedHint = unknownHint | increasingHint | decreasingHint

definition order2 :: "('a \<Rightarrow> 'a \<Rightarrow> bool) \<Rightarrow> 'a list \<Rightarrow> nat \<Rightarrow> nat \<Rightarrow> nat \<Rightarrow> nat \<times> nat \<times> nat" where
  "order2 lt xs a b swaps = (if Less lt xs b a then (b, a, swaps + 1) else (a, b, swaps))"

definition median :: "('a \<Rightarrow> 'a \<Rightarrow> bool) \<Rightarrow> 'a list \<Rightarrow> nat \<Rightarrow> nat \<Rightarrow> nat \<Rightarrow> nat \<Rightarrow> nat \<times> nat" where
  "median lt xs a b c swaps =
     (case order2 lt xs a b swaps of (a, b, swaps) \<Rightarrow>
      case order2 lt xs b c swaps of (b, c, swaps) \<Rightarrow>
      case order2 lt xs a b swaps of (a, b, swaps) \<Rightarrow> (b, swaps))"

definition medianAdjacent :: "('a \<Rightarrow> 'a \<Rightarrow> bool) \<Rightarrow> 'a list \<Rightarrow> nat \<Rightarrow> nat \<Rightarrow> nat \<times> nat" where
  "medianAdjacent lt xs a swaps = median lt xs (a - 1) a (a + 1) swaps"

definition choosePivot :: "('a \<Rightarrow> 'a \<Rightarrow> bool) \<Rightarrow> 'a list \<Rightarrow> nat \<Rightarrow> nat \<Rightarrow> nat \<times> sortedHint" where
  "choosePivot lt xs a b =
     (let l = b - a; i = a + l div 4 * 1; j = a + l div 4 * 2; k = a + l div 4 * 3
      in case (if l \<ge> 8 then
                 (if l \<ge> 50 then
                    (case medianAdjacent lt xs i 0 of (i, swaps) \<Rightarrow>
                     case medianAdjacent lt xs j swaps of (j, swaps) \<Rightarrow>
                     case medianAdjacent lt xs k swaps of (k, swaps) \<Rightarrow> median lt xs i j k swaps)
                  else median lt xs i j k 0)
               else (j, 0)) of
           (j, swaps) \<Rightarrow>
             (j, if swaps = 0 then increasingHint
                 else if swaps = 4 * 3 then decreasingHint else unknownHint))"

text \<open>\<^verbatim>\<open>reverseRange\<close>.\<close>

function reverse_loop :: "nat \<Rightarrow> nat \<Rightarrow> 'a list \<Rightarrow> 'a list" where
  "reverse_loop i j xs = (if i < j then reverse_loop (Suc i) (j - 1) (Swap i j xs) else xs)"
  by pat_completeness auto
termination
  by (relation "measure (\<lambda>(i, j, xs). j - i)") auto

declare reverse_loop.simps [simp del]

definition reverseRange :: "'a list \<Rightarrow> nat \<Rightarrow> nat \<Rightarrow> 'a list" where
  "reverseRange xs a b = reverse_loop a (b - 1) xs"

text \<open>
  \<^verbatim>\<open>partialInsertionSort\<close>: at most five out-of-order pairs are repaired, and none on a
  slice shorter than fifty. It returns whether the slice is sorted at the end.
\<close>

function advance :: "('a \<Rightarrow> 'a \<Rightarrow> bool) \<Rightarrow> 'a list \<Rightarrow> nat \<Rightarrow> nat \<Rightarrow> nat" where
  "advance lt xs b i = (if i < b \<and> \<not> Less lt xs i (i - 1) then advance lt xs b (Suc i) else i)"
  by pat_completeness auto
termination
  by (relation "measure (\<lambda>(lt, xs, b, i). b - i)") auto

declare advance.simps [simp del]

function shift_left :: "('a \<Rightarrow> 'a \<Rightarrow> bool) \<Rightarrow> nat \<Rightarrow> 'a list \<Rightarrow> 'a list" where
  "shift_left lt j xs =
     (if j \<ge> 1 \<and> Less lt xs j (j - 1) then shift_left lt (j - 1) (Swap j (j - 1) xs) else xs)"
  by pat_completeness auto
termination
  by (relation "measure (\<lambda>(lt, j, xs). j)") auto

declare shift_left.simps [simp del]

function shift_right :: "('a \<Rightarrow> 'a \<Rightarrow> bool) \<Rightarrow> nat \<Rightarrow> nat \<Rightarrow> 'a list \<Rightarrow> 'a list" where
  "shift_right lt b j xs =
     (if j < b \<and> Less lt xs j (j - 1) then shift_right lt b (Suc j) (Swap j (j - 1) xs) else xs)"
  by pat_completeness auto
termination
  by (relation "measure (\<lambda>(lt, b, j, xs). b - j)") auto

declare shift_right.simps [simp del]

fun partial_loop ::
  "nat \<Rightarrow> ('a \<Rightarrow> 'a \<Rightarrow> bool) \<Rightarrow> nat \<Rightarrow> nat \<Rightarrow> nat \<Rightarrow> 'a list \<Rightarrow> bool \<times> 'a list" where
  "partial_loop 0 lt a b i xs = (False, xs)"
| "partial_loop (Suc steps) lt a b i xs =
     (let i = advance lt xs b i
      in if i = b then (True, xs)
         else if b - a < 50 then (False, xs)
         else
           (let xs = Swap i (i - 1) xs;
                xs = (if i - a \<ge> 2 then shift_left lt (i - 1) xs else xs);
                xs = (if b - i \<ge> 2 then shift_right lt b (i + 1) xs else xs)
            in partial_loop steps lt a b i xs))"

definition partialInsertionSort :: "('a \<Rightarrow> 'a \<Rightarrow> bool) \<Rightarrow> 'a list \<Rightarrow> nat \<Rightarrow> nat \<Rightarrow> bool \<times> 'a list" where
  "partialInsertionSort lt xs a b = partial_loop 5 lt a b (a + 1) xs"

text \<open>
  \<^verbatim>\<open>partition\<close> and \<^verbatim>\<open>partitionEqual\<close>. The two scans move \<open>i\<close> up and \<open>j\<close> down while
  a test on the element holds; \<open>j\<close> may come to stand just below \<open>i\<close>.
\<close>

function scan_up :: "(nat \<Rightarrow> bool) \<Rightarrow> int \<Rightarrow> int \<Rightarrow> int" where
  "scan_up P j i = (if i \<le> j \<and> P (nat i) then scan_up P j (i + 1) else i)"
  by pat_completeness auto
termination
  by (relation "measure (\<lambda>(P, j, i). nat (j + 1 - i))") auto

declare scan_up.simps [simp del]

function scan_down :: "(nat \<Rightarrow> bool) \<Rightarrow> int \<Rightarrow> int \<Rightarrow> int" where
  "scan_down P i j = (if i \<le> j \<and> P (nat j) then scan_down P i (j - 1) else j)"
  by pat_completeness auto
termination
  by (relation "measure (\<lambda>(P, i, j). nat (j + 1 - i))") auto

declare scan_down.simps [simp del]

partial_function (option) partition_loop ::
  "('a \<Rightarrow> 'a \<Rightarrow> bool) \<Rightarrow> nat \<Rightarrow> int \<Rightarrow> int \<Rightarrow> 'a list \<Rightarrow> ('a list \<times> nat) option" where
  "partition_loop lt a i j xs =
     (let i = scan_up (\<lambda>k. Less lt xs k a) j i;
          j = scan_down (\<lambda>k. \<not> Less lt xs k a) i j
      in if i > j then Some (Swap (nat j) a xs, nat j)
         else partition_loop lt a (i + 1) (j - 1) (Swap (nat i) (nat j) xs))"

declare partition_loop.simps [code]

definition partition_go ::
  "('a \<Rightarrow> 'a \<Rightarrow> bool) \<Rightarrow> 'a list \<Rightarrow> nat \<Rightarrow> nat \<Rightarrow> nat \<Rightarrow> ('a list \<times> nat \<times> bool) option" where
  "partition_go lt xs a b pivot =
     (let xs = Swap a pivot xs;
          i = scan_up (\<lambda>k. Less lt xs k a) (int b - 1) (int a + 1);
          j = scan_down (\<lambda>k. \<not> Less lt xs k a) i (int b - 1)
      in if i > j then Some (Swap (nat j) a xs, nat j, True)
         else map_option (\<lambda>(ys, mid). (ys, mid, False))
                (partition_loop lt a (i + 1) (j - 1) (Swap (nat i) (nat j) xs)))"

partial_function (option) partitionEqual_loop ::
  "('a \<Rightarrow> 'a \<Rightarrow> bool) \<Rightarrow> nat \<Rightarrow> int \<Rightarrow> int \<Rightarrow> 'a list \<Rightarrow> ('a list \<times> nat) option" where
  "partitionEqual_loop lt a i j xs =
     (let i = scan_up (\<lambda>k. \<not> Less lt xs a k) j i;
          j = scan_down (\<lambda>k. Less lt xs a k) i j
      in if i > j then Some (xs, nat i)
         else partitionEqual_loop lt a (i + 1) (j - 1) (Swap (nat i) (nat j) xs))"

declare partitionEqual_loop.simps [code]

definition partitionEqual ::
  "('a \<Rightarrow> 'a \<Rightarrow> bool) \<Rightarrow> 'a list \<Rightarrow> nat \<Rightarrow> nat \<Rightarrow> nat \<Rightarrow> ('a list \<times> nat) option" where
  "partitionEqual lt xs a b pivot =
     partitionEqual_loop lt a (int a + 1) (int b - 1) (Swap a pivot xs)"

text \<open>
  \<^verbatim>\<open>pdqsort\<close>. A round of its loop is a call, with \<^verbatim>\<open>wasBalanced\<close> and
  \<^verbatim>\<open>wasPartitioned\<close> as arguments; not returning is the value \<open>None\<close>.
\<close>

partial_function (option) pdqsort ::
  "('a \<Rightarrow> 'a \<Rightarrow> bool) \<Rightarrow> 'a list \<Rightarrow> nat \<Rightarrow> nat \<Rightarrow> nat \<Rightarrow> bool \<Rightarrow> bool \<Rightarrow> 'a list option" where
  "pdqsort lt xs a b limit wasBalanced wasPartitioned =
     (if b - a \<le> 12 then Some (insertionSort lt xs a b)
      else if limit = 0 then Some (heapSort lt xs a b)
      else
        (let xs = (if \<not> wasBalanced then breakPatterns xs a b else xs);
             limit = (if \<not> wasBalanced then limit - 1 else limit)
         in case choosePivot lt xs a b of (pivot, hint) \<Rightarrow>
            case (if hint = decreasingHint
                  then (reverseRange xs a b, (b - 1) - (pivot - a), increasingHint)
                  else (xs, pivot, hint)) of (xs, pivot, hint) \<Rightarrow>
            case (if wasBalanced \<and> wasPartitioned \<and> hint = increasingHint
                  then partialInsertionSort lt xs a b else (False, xs)) of (done_already, xs) \<Rightarrow>
            if done_already then Some xs
            else if a > 0 \<and> \<not> Less lt xs (a - 1) pivot then
              Option.bind (partitionEqual lt xs a b pivot)
                (\<lambda>(xs, mid). pdqsort lt xs mid b limit wasBalanced wasPartitioned)
            else
              Option.bind (partition_go lt xs a b pivot)
                (\<lambda>(xs, mid, alreadyPartitioned).
                   if mid - a < b - mid then
                     Option.bind (pdqsort lt xs a mid limit True True)
                       (\<lambda>xs. pdqsort lt xs (mid + 1) b limit (mid - a \<ge> (b - a) div 8) alreadyPartitioned)
                   else
                     Option.bind (pdqsort lt xs (mid + 1) b limit True True)
                       (\<lambda>xs. pdqsort lt xs a mid limit (b - mid \<ge> (b - a) div 8) alreadyPartitioned))))"

declare pdqsort.simps [code]

definition Sort :: "('a \<Rightarrow> 'a \<Rightarrow> bool) \<Rightarrow> 'a list \<Rightarrow> 'a list option" where
  "Sort lt xs =
     (let n = length xs
      in if n \<le> 1 then Some xs else pdqsort lt xs 0 n (bits_Len n) True True)"

section \<open>The test doubles\<close>

text \<open>
  The mock of \<^verbatim>\<open>node_test.go\<close>: a \<^verbatim>\<open>file\<close> (here \<open>mock_file\<close>) is a directory when its \<^verbatim>\<open>files\<close> are not
  nil, \<^verbatim>\<open>addFile\<close> registers a file and what is below it under their paths, \<^verbatim>\<open>Stat\<close>
  fails on the path \<^verbatim>\<open>root/bad\<close>, and \<^verbatim>\<open>ReadDir\<close> gives the names of the registered
  file's \<^verbatim>\<open>files\<close>. A path that was never registered is reported as an error here.
\<close>

datatype mock_file = File (fname: string) (fsize: int64) (fmode: "32 word") (lastMod: time)
  (ffiles: "mock_file list option")

definition file_info :: "mock_file \<Rightarrow> FileInfo" where
  "file_info f = \<lparr>Name = fname f, Size = fsize f, Mode = fmode f, ModTime = lastMod f,
     IsDir = (ffiles f \<noteq> None), Sys = None\<rparr>"

fun addFile :: "string \<Rightarrow> mock_file \<Rightarrow> (string \<times> mock_file) list"
  and addFiles :: "string \<Rightarrow> mock_file list \<Rightarrow> (string \<times> mock_file) list"
where
  "addFile p (File nm sz md mt fs) =
     (p, File nm sz md mt fs) # (case fs of None \<Rightarrow> [] | Some l \<Rightarrow> addFiles p l)"
| "addFiles p [] = []"
| "addFiles p (f # l) = addFile (p @ ''/'' @ fname f) f @ addFiles p l"

definition MockFs :: "(string \<times> mock_file) list \<Rightarrow> Fs" where
  "MockFs fl =
     \<lparr>Stat = (\<lambda>p. if p = ''root/bad'' then Inl ''stat failed''
                  else case map_of fl p of None \<Rightarrow> Inl ''no such file'' | Some f \<Rightarrow> Inr (file_info f)),
      ReadDir = (\<lambda>p. case map_of fl p of
                   None \<Rightarrow> Inl ''no such file''
                 | Some f \<Rightarrow> Inr (case ffiles f of None \<Rightarrow> [] | Some l \<Rightarrow> map fname l))\<rparr>"

text \<open>
  A stand-in for \<^verbatim>\<open>regexp\<close> on the patterns made of literal characters, each of them
  optionally followed by a star: such a pattern compiles unless a star has no character
  before it, and its leftmost match is found by trying each start in turn, a starred
  character taking as many repetitions as lets the rest match.
\<close>

datatype item = Lit char | Star char

fun parse_items :: "string \<Rightarrow> item list option" where
  "parse_items [] = Some []"
| "parse_items [c] = (if c = CHR ''*'' then None else Some [Lit c])"
| "parse_items (c # d # s) =
     (if c = CHR ''*'' then None
      else if d = CHR ''*'' then map_option ((#) (Star c)) (parse_items s)
      else map_option ((#) (Lit c)) (parse_items (d # s)))"

fun match_here :: "item list \<Rightarrow> string \<Rightarrow> string option" where
  "match_here [] s = Some []"
| "match_here (Lit c # its) [] = None"
| "match_here (Lit c # its) (x # xs) =
     (if x = c then map_option ((#) x) (match_here its xs) else None)"
| "match_here (Star c # its) [] = match_here its []"
| "match_here (Star c # its) (x # xs) =
     (if x = c then
        (case match_here (Star c # its) xs of
           Some m \<Rightarrow> Some (x # m)
         | None \<Rightarrow> match_here its (x # xs))
      else match_here its (x # xs))"

fun leftmost :: "item list \<Rightarrow> string \<Rightarrow> string option" where
  "leftmost its [] = match_here its []"
| "leftmost its (x # xs) =
     (case match_here its (x # xs) of Some m \<Rightarrow> Some m | None \<Rightarrow> leftmost its xs)"

definition test_Compile :: "string \<Rightarrow> (string \<Rightarrow> string option) option" where
  "test_Compile p = map_option leftmost (parse_items p)"

text \<open>
  A stand-in for \<^verbatim>\<open>sort.Sort\<close>: the insertion sort that moves each element to the left
  while \<^verbatim>\<open>Less\<close> puts it before its left neighbour. \<open>ins_left\<close> works on the sorted
  prefix in reverse.
\<close>

fun ins_left :: "('a \<Rightarrow> 'a \<Rightarrow> bool) \<Rightarrow> 'a \<Rightarrow> 'a list \<Rightarrow> 'a list" where
  "ins_left lt x [] = [x]"
| "ins_left lt x (y # ys) = (if lt x y then y # ins_left lt x ys else x # y # ys)"

definition test_Sort :: "('a \<Rightarrow> 'a \<Rightarrow> bool) \<Rightarrow> 'a list \<Rightarrow> 'a list" where
  "test_Sort lt xs = rev (foldl (\<lambda>acc x. ins_left lt x acc) [] xs)"

text \<open>
  Stand-ins for the comparators of the missing file, with the treatment of a nil
  operand that \<^verbatim>\<open>CTimeSort\<close> shows.
\<close>

definition nil_or :: "(FileInfo \<Rightarrow> FileInfo \<Rightarrow> bool) \<Rightarrow> FileInfo option \<Rightarrow> FileInfo option \<Rightarrow> bool" where
  "nil_or lt f1 f2 = (case (f1, f2) of (Some a, Some b) \<Rightarrow> lt a b | _ \<Rightarrow> f2 = None)"

definition test_Base :: "string \<Rightarrow> string" where
  "test_Base p = rev (takeWhile (\<lambda>c. c \<noteq> CHR ''/'') (rev p))"

definition test_env :: Env where
  "test_env =
     \<lparr>filepath_Abs = (\<lambda>p. Some (''/'' @ p)),
      filepath_Clean = (\<lambda>p. p),
      filepath_Join = (\<lambda>a b. a @ ''/'' @ b),
      filepath_Base = test_Base,
      filepath_EvalSymlinks = (\<lambda>p. None),
      os_Readlink = (\<lambda>p. None),
      regexp_Compile = test_Compile,
      sort_Sort = test_Sort,
      ModSort_fn = nil_or (\<lambda>a b. ModTime a < ModTime b),
      DirSort_fn = nil_or (\<lambda>a b. IsDir a \<and> \<not> IsDir b),
      VerSort_fn = nil_or (\<lambda>a b. Name a < Name b),
      SizeSort_fn = nil_or (\<lambda>a b. sint (Size a) < sint (Size b)),
      NameSort_fn = nil_or (\<lambda>a b. Name a < Name b),
      getStat = (\<lambda>n. (True, 1, 2, 3, 4)),
      ANSIColor = (\<lambda>n s. s),
      user_LookupId = (\<lambda>u. None),
      FileMode_String = (\<lambda>m. ''----------''),
      time_Year = (\<lambda>t. 0),
      time_Format = (\<lambda>t f. f),
      time_Now = 1,
      file_mime = (\<lambda>p. ''application/octet-stream'' @ [CHR 0x0A]),
      file_Read = (\<lambda>p. None)\<rparr>"

definition test_opts :: "Fs \<Rightarrow> Options" where
  "test_opts fs =
     \<lparr>Fs = fs, All = False, DirsOnly = False, FullPath = False, IgnoreCase = False,
      FollowLink = False, DeepLevel = 0, Pattern = '''', IPattern = '''', MatchDirs = False,
      Prune = False, Contents = False, ByteSize = False, UnitSize = False, FileMode = False,
      ShowUid = False, ShowGid = False, LastMod = False, Quotes = False, Inodes = False,
      Device = False, NoSort = False, VerSort = False, ModSort = False, DirSort = False,
      NameSort = False, SizeSort = False, CTimeSort = False, ReverSort = False,
      NoIndent = False, Colorize = False, Color = None, Now = 0\<rparr>"

text \<open>The tree of \<^verbatim>\<open>TestSimple\<close> and the tree of \<^verbatim>\<open>TestError\<close>.\<close>

definition plain :: "string \<Rightarrow> int64 \<Rightarrow> mock_file" where
  "plain nm sz = File nm sz 0 0 None"

definition simple_root :: mock_file where
  "simple_root =
     File ''root'' 200 0 0 (Some
       [plain ''a'' 50, plain ''b'' 50,
        File ''c'' 100 0 0 (Some
          [plain ''d'' 50, plain ''e'' 50, plain ''.f'' 0,
           File ''g'' 100 0 0 (Some [plain ''h'' 50, plain ''i'' 50]),
           plain ''k'' 50]),
        plain ''j'' 50])"

definition error_root :: mock_file where
  "error_root =
     File ''root'' 200 0 0 (Some [plain ''a'' 50, plain ''b'' 50, plain ''j'' 50, plain ''bad'' 50])"

text \<open>The default options on a file system with nothing in it.\<close>

definition opts0 :: Options where
  "opts0 = test_opts (MockFs [])"

text \<open>
  A file system in which the directory \<^verbatim>\<open>root/c\<close> can be examined but not listed.
\<close>

definition dir_info :: "string \<Rightarrow> FileInfo" where
  "dir_info nm = file_info (File nm 0 0 0 (Some []))"

definition unreadable_fs :: Fs where
  "unreadable_fs =
     \<lparr>Stat = (\<lambda>p. if p = ''root'' then Inr (dir_info ''root'')
                  else if p = ''root/c'' then Inr (dir_info ''c'')
                  else Inl ''no such file''),
      ReadDir = (\<lambda>p. if p = ''root'' then Inr [''c'']
                     else Inl ''open root/c: permission denied'')\<rparr>"

text \<open>
  A file system with the symbolic link \<^verbatim>\<open>root/l\<close> to the directory \<^verbatim>\<open>t\<close> beside
  \<^verbatim>\<open>root\<close>, which holds the file \<^verbatim>\<open>x\<close>; and the tree of \<^verbatim>\<open>TestSymlink\<close>, whose link
  resolves to itself.
\<close>

definition link_root :: mock_file where
  "link_root = File ''root'' 0 0 0 (Some [File ''l'' 0 ModeSymlink 0 None])"

definition link_fs :: Fs where
  "link_fs = MockFs (addFile ''root'' link_root @ addFile ''t'' (File ''t'' 0 0 0 (Some [plain ''x'' 7])))"

definition link_env :: Env where
  "link_env = test_env
     \<lparr>filepath_EvalSymlinks := (\<lambda>p. if p = ''root/l'' then Some ''t'' else None),
      os_Readlink := (\<lambda>p. if p = ''root/l'' then Some ''../t'' else None)\<rparr>"

definition link_opts :: Options where
  "link_opts = (test_opts link_fs)\<lparr>FollowLink := True\<rparr>"

definition symlink_root :: mock_file where
  "symlink_root = File ''root'' 0 0 0 (Some [File ''symlink'' 0 ModeSymlink 0 (Some [])])"

definition symlink_opts :: Options where
  "symlink_opts = (test_opts (MockFs (addFile ''root'' symlink_root)))\<lparr>FollowLink := True\<rparr>"


text \<open>
  The environment in which \<^verbatim>\<open>sort.Sort\<close> is the sort of the standard library, and
  thirteen files of one directory whose status changed at second 1, the last one at
  second 0, sorted by change time.
\<close>

definition go_env :: Env where
  "go_env = test_env\<lparr>sort_Sort :=
     (\<lambda>lt xs. case Sort lt xs of Some ys \<Rightarrow> ys | None \<Rightarrow> xs)\<rparr>"

definition changed_at :: "string \<Rightarrow> int64 \<Rightarrow> Node" where
  "changed_at nm t =
     Node (Some ((file_info (plain nm 50))\<lparr>Sys := Some \<lparr>Ctim_Sec = t\<rparr>\<rparr>)) (''root/'' @ nm) 1 None []"

definition thirteen :: "Node list" where
  "thirteen = map (\<lambda>nm. changed_at nm 1)
       [''a'', ''b'', ''c'', ''d'', ''e'', ''f'', ''g'', ''h'', ''i'', ''j'', ''k'', ''l'']
     @ [changed_at ''m'' 0]"

definition ctime_opts :: Options where
  "ctime_opts = opts0\<lparr>CTimeSort := True\<rparr>"

definition three :: "Node list" where
  "three = [changed_at ''a'' 1, changed_at ''g'' 1, changed_at ''m'' 0]"
section \<open>Predicates of the statements\<close>

text \<open>A node that went through \<^verbatim>\<open>Visit\<close> has an error or its metadata.\<close>

definition visited :: "Node \<Rightarrow> bool" where
  "visited node = (err node \<noteq> None \<or> info node \<noteq> None)"

text \<open>
  Whether the pattern, compiled with the case prefix the options ask for, finds a
  non-empty text in the candidate.
\<close>

definition case_prefix :: "Options \<Rightarrow> string" where
  "case_prefix opt = (if IgnoreCase opt then ''(?i)'' else '''')"

definition regex_finds :: "Env \<Rightarrow> Options \<Rightarrow> string \<Rightarrow> string \<Rightarrow> bool" where
  "regex_finds env opt pattern text =
     (case regexp_Compile env (case_prefix opt @ pattern) of
        None \<Rightarrow> False
      | Some re \<Rightarrow> FindString re text \<noteq> '''')"

text \<open>The nodes used as concrete inputs.\<close>

definition abc_node :: Node where
  "abc_node = Node (Some (file_info (plain ''abc'' 50))) ''root/abc'' 1 None []"

text \<open>Whether a text contains the separator \<^verbatim>\<open>": "\<close>.\<close>

fun has_sep :: "string \<Rightarrow> bool" where
  "has_sep (c # d # s) = ((c = CHR '':'' \<and> d = CHR '' '') \<or> has_sep (d # s))"
| "has_sep s = False"

text \<open>
  The short error message in the words of the specification: the entire tail of the
  error text after the first separator when there is one, and else the full text.
\<close>

fun tail_after_first_sep :: "string \<Rightarrow> string option" where
  "tail_after_first_sep (c # d # s) =
     (if c = CHR '':'' \<and> d = CHR '' '' then Some s else tail_after_first_sep (d # s))"
| "tail_after_first_sep s = None"

definition spec_short_error :: "string \<Rightarrow> string" where
  "spec_short_error e = (case tail_after_first_sep e of Some t \<Rightarrow> t | None \<Rightarrow> e)"

definition bad_node :: "string \<Rightarrow> Node" where
  "bad_node e = Node None ''root/x'' 1 (Some e) []"

text \<open>
  The line of a node with an error in the words of the specification: the display name
  of the node, as the line of a node without error has it, and the short error message
  in brackets. \<open>listfail_node\<close> is a directory that was examined and whose listing
  failed with the given error.
\<close>

definition spec_error_line :: "Env \<Rightarrow> Options \<Rightarrow> Node \<Rightarrow> FileInfo \<Rightarrow> string \<Rightarrow> string" where
  "spec_error_line env opts node fi e =
     display_name env opts node fi @ '' ['' @ spec_short_error e @ '']'' @ [CHR 0x0A]"

definition listfail_node :: "string \<Rightarrow> Node" where
  "listfail_node e = Node (Some (dir_info ''c'')) ''root/c'' 1 (Some e) []"

text \<open>
  The nodes below a node, and the sum of the sizes of those that are not directories.
\<close>

fun descendants :: "Node \<Rightarrow> Node list" where
  "descendants (Node fi p d e ns) = concat (map (\<lambda>c. c # descendants c) ns)"

definition own_file_size :: "Node \<Rightarrow> int64" where
  "own_file_size c = (case info c of Some cfi \<Rightarrow> if IsDir cfi then 0 else Size cfi | None \<Rightarrow> 0)"

fun file_sizes :: "Node \<Rightarrow> int64" where
  "file_sizes (Node fi p d e ns) = sum_list (map (\<lambda>c. own_file_size c + file_sizes c) ns)"

text \<open>
  The shape of a tree that \<^verbatim>\<open>Visit\<close> builds: a node with an error has no children and
  is not known to be a file, a node without error has its metadata, and only a
  directory has children.
\<close>

fun well_built :: "Node \<Rightarrow> bool" where
  "well_built (Node fi p d e ns) =
     ((case e of
         Some x \<Rightarrow> ns = [] \<and> (case fi of None \<Rightarrow> True | Some i \<Rightarrow> IsDir i)
       | None \<Rightarrow> (case fi of None \<Rightarrow> False | Some i \<Rightarrow> IsDir i \<or> ns = []))
      \<and> list_all well_built ns)"

definition dir_node :: Node where
  "dir_node = Node (Some (file_info (File ''root'' 200 0 0 (Some [plain ''abc'' 50])))) ''root'' 0 None
     [abc_node]"

definition all_annotations :: Options where
  "all_annotations = opts0\<lparr>ByteSize := True, FileMode := True, ShowUid := True, ShowGid := True,
     LastMod := True, Inodes := True, Device := True\<rparr>"

text \<open>
  The same for a list of siblings: the nodes at and below them, the sizes of the files
  among these, and how the error that the loop of \<^verbatim>\<open>dirRecursiveSize\<close> ends with
  relates to the one it started with and to the errors recorded on these nodes.
\<close>

definition below :: "Node list \<Rightarrow> Node list" where
  "below ns = concat (map (\<lambda>c. c # descendants c) ns)"

definition sizes_of :: "Node list \<Rightarrow> int64" where
  "sizes_of ns = sum_list (map (\<lambda>c. own_file_size c + file_sizes c) ns)"

definition err_from :: "string option \<Rightarrow> Node list \<Rightarrow> string option \<Rightarrow> bool" where
  "err_from er ds er' =
     ((er \<noteq> None \<or> (\<exists>c \<in> set ds. err c \<noteq> None) \<longrightarrow> er' \<noteq> None)
      \<and> (er' = er \<or> er' = Some ''Depth too high'' \<or> (er' \<noteq> None \<and> (\<exists>c \<in> set ds. err c = er'))))"

text \<open>
  A node as \<^verbatim>\<open>New\<close>, the loop of \<^verbatim>\<open>Visit\<close> and the link step of \<^verbatim>\<open>print\<close> create it:
  no error, no children, and metadata, if any, of a directory.
\<close>

definition fresh :: "Node \<Rightarrow> bool" where
  "fresh node = (err node = None \<and> nodes node = []
     \<and> (case info node of None \<Rightarrow> True | Some i \<Rightarrow> IsDir i))"

text \<open>\<^verbatim>\<open>sort.Sort\<close> only swaps elements: what it returns is a permutation of the slice.\<close>

definition sort_permutes :: "Env \<Rightarrow> bool" where
  "sort_permutes env = (\<forall>lt xs. mset (sort_Sort env lt xs) = mset xs)"

text \<open>The tree that \<^verbatim>\<open>Visit\<close> builds in \<^verbatim>\<open>TestError\<close> under the default options.\<close>

definition leaf_node :: "string \<Rightarrow> Node" where
  "leaf_node nm = Node (Some (file_info (plain nm 50))) (''root/'' @ nm) 1 None []"

definition error_tree :: Node where
  "error_tree = Node (Some (file_info error_root)) ''root'' 0 None
     [leaf_node ''a'', leaf_node ''b'', leaf_node ''j'',
      Node None ''root/bad'' 1 (Some ''stat failed'') []]"

definition error_fs :: Fs where
  "error_fs = MockFs (addFile ''root'' error_root)"

definition error_paths :: vpaths where
  "error_paths = {''/root'', ''/root/a'', ''/root/b'', ''/root/j'', ''/root/bad''}"

text \<open>Every child is one level below its parent, throughout the tree.\<close>

fun depth_inv :: "Node \<Rightarrow> bool" where
  "depth_inv (Node fi p d e ns) = list_all (\<lambda>c. depth c = d + 1 \<and> depth_inv c) ns"

definition child_built :: "int \<Rightarrow> Node \<Rightarrow> bool" where
  "child_built d c = (depth c = d + 1 \<and> well_built c \<and> depth_inv c)"

text \<open>
  Counts over a tree: the nodes with metadata, the nodes without error, the nodes with
  an error, and the nodes that have both (a directory whose listing failed).
\<close>

fun counted :: "Node \<Rightarrow> int" where
  "counted (Node fi p d e ns) = (if fi = None then 0 else 1) + sum_list (map counted ns)"

fun ok_nodes :: "Node \<Rightarrow> int" where
  "ok_nodes (Node fi p d e ns) = (if e = None then 1 else 0) + sum_list (map ok_nodes ns)"

fun failed_nodes :: "Node \<Rightarrow> int" where
  "failed_nodes (Node fi p d e ns) = (if e = None then 0 else 1) + sum_list (map failed_nodes ns)"

fun listfail_nodes :: "Node \<Rightarrow> int" where
  "listfail_nodes (Node fi p d e ns) =
     (if e \<noteq> None \<and> fi \<noteq> None then 1 else 0) + sum_list (map listfail_nodes ns)"

definition is_dir :: "Node \<Rightarrow> bool" where
  "is_dir node = (case info node of None \<Rightarrow> False | Some fi \<Rightarrow> IsDir fi)"

text \<open>
  The lines of an output: a node without error ends its line with one \<open>EndLine\<close>, a
  node with an error writes one \<open>ErrorLine\<close>.
\<close>

definition nonerror_lines :: "chunk list \<Rightarrow> int" where
  "nonerror_lines out = int (length (filter (\<lambda>c. c = EndLine) out))"

fun is_ErrorLine :: "chunk \<Rightarrow> bool" where
  "is_ErrorLine (ErrorLine s) = True"
| "is_ErrorLine c = False"

definition error_lines :: "chunk list \<Rightarrow> int" where
  "error_lines out = int (length (filter is_ErrorLine out))"

text \<open>
  The test of the link step of \<^verbatim>\<open>print\<close>: the target of the link as the step resolves
  it, and whether the step starts a \<^verbatim>\<open>Visit\<close> on it.
\<close>

definition link_target :: "Env \<Rightarrow> Node \<Rightarrow> string" where
  "link_target env node =
     (case filepath_EvalSymlinks env (path node) of
        Some t \<Rightarrow> t
      | None \<Rightarrow> (case os_Readlink env (path node) of Some t \<Rightarrow> t | None \<Rightarrow> path node))"

definition is_link :: "Node \<Rightarrow> bool" where
  "is_link node = (case info node of None \<Rightarrow> False | Some fi \<Rightarrow> Mode fi AND ModeSymlink = ModeSymlink)"

definition target_is_dir :: "Env \<Rightarrow> Options \<Rightarrow> Node \<Rightarrow> bool" where
  "target_is_dir env opts node =
     (case Stat (Fs opts) (link_target env node) of Inr i \<Rightarrow> IsDir i | Inl e \<Rightarrow> False)"

definition would_follow :: "Env \<Rightarrow> Options \<Rightarrow> vpaths \<Rightarrow> Node \<Rightarrow> bool" where
  "would_follow env opts vp node =
     (err node = None \<and> is_link node \<and> FollowLink opts \<and> target_is_dir env opts node
      \<and> (case filepath_Abs env (link_target env node) of
            Some p \<Rightarrow> filepath_Clean env p \<notin> vp
          | None \<Rightarrow> False))"

definition guarded :: "Env \<Rightarrow> Options \<Rightarrow> vpaths \<Rightarrow> Node \<Rightarrow> bool" where
  "guarded env opts vp r = list_all (\<lambda>c. \<not> would_follow env opts vp c) (r # descendants r)"

fun height :: "Node \<Rightarrow> nat" where
  "height (Node fi p d e ns) = Suc (foldr (\<lambda>c m. max (height c) m) ns 0)"

text \<open>
  What a call \<open>pr\<close> of the renderer does on a node when it follows no link: it leaves
  the node and the visited paths as they are, and writes one line for each node.
\<close>

definition renders ::
  "(string \<Rightarrow> Node \<Rightarrow> vpaths \<Rightarrow> (chunk list \<times> Node \<times> vpaths) result) \<Rightarrow> vpaths \<Rightarrow> Node \<Rightarrow> bool"
where
  "renders pr vp c =
     (\<forall>ind out c' v'. pr ind c vp = Ok (out, c', v') \<longrightarrow>
        c' = c \<and> v' = vp \<and> nonerror_lines out = ok_nodes c \<and> error_lines out = failed_nodes c)"

text \<open>
  The property of the counts in the words of the specification: the sum of the two
  counts is the number of lines without error, the line of a root directory left out.
\<close>

definition spec_counts_match :: "int \<Rightarrow> int \<Rightarrow> chunk list \<Rightarrow> Node \<Rightarrow> bool" where
  "spec_counts_match d f out r = (d + f = nonerror_lines out - (if is_dir r then 1 else 0))"

text \<open>The trees and outputs of the concrete runs.\<close>

definition error_out :: "chunk list" where
  "error_out =
     [NameText ''root'', EndLine,
      Branch glyph_tee, NameText ''a'', EndLine,
      Branch glyph_tee, NameText ''b'', EndLine,
      Branch glyph_tee, NameText ''j'', EndLine,
      Branch glyph_corner, ErrorLine (''bad [stat failed]'' @ [CHR 0x0A])]"

definition unreadable_tree :: Node where
  "unreadable_tree = Node (Some (dir_info ''root'')) ''root'' 0 None
     [Node (Some (dir_info ''c'')) ''root/c'' 1 (Some ''open root/c: permission denied'') []]"

definition unreadable_out :: "chunk list" where
  "unreadable_out =
     [NameText ''root'', EndLine,
      Branch glyph_corner, ErrorLine (''c [permission denied]'' @ [CHR 0x0A])]"

definition link_node :: "Node list \<Rightarrow> Node" where
  "link_node ns = Node (Some (file_info (File ''l'' 0 ModeSymlink 0 None))) ''root/l'' 1 None ns"

definition link_tree :: "Node list \<Rightarrow> Node" where
  "link_tree ns = Node (Some (file_info link_root)) ''root'' 0 None [link_node ns]"

definition target_child :: Node where
  "target_child = Node (Some (file_info (plain ''x'' 7))) ''t/x'' 1 None []"

definition link_out :: "chunk list" where
  "link_out =
     [NameText ''root'', EndLine,
      Branch glyph_corner, NameText ''l -> ../t'', EndLine,
      Branch (''    '' @ glyph_corner), NameText ''x'', EndLine]"

definition symlink_tree :: Node where
  "symlink_tree = Node (Some (file_info symlink_root)) ''root'' 0 None
     [Node (Some (file_info (File ''symlink'' 0 ModeSymlink 0 (Some [])))) ''root/symlink'' 1 None []]"

definition symlink_out :: "chunk list" where
  "symlink_out =
     [NameText ''root'', EndLine,
      Branch glyph_corner, NameText ''symlink -> root/symlink [recursive, not followed]'', EndLine]"

definition symlink_child :: Node where
  "symlink_child = Node (Some (file_info (File ''symlink'' 0 ModeSymlink 0 (Some [])))) ''root/symlink'' 1 None []"

definition symlink_paths :: vpaths where
  "symlink_paths = {''/root'', ''/root/symlink''}"

definition link_paths :: vpaths where
  "link_paths = {''/root'', ''/root/l''}"


text \<open>
  For the order of two siblings: the occurrences of \<open>a\<close> and \<open>b\<close> in a list, in the order
  they have there. Two siblings are tied when the comparator puts neither before the
  other. An environment runs the sort of the standard library when its \<open>sort_Sort\<close>
  gives what \<open>Sort\<close> returns.
\<close>

definition pair_order :: "'a \<Rightarrow> 'a \<Rightarrow> 'a list \<Rightarrow> 'a list" where
  "pair_order a b xs = filter (\<lambda>z. z = a \<or> z = b) xs"

definition tied :: "('a \<Rightarrow> 'a \<Rightarrow> bool) \<Rightarrow> 'a \<Rightarrow> 'a \<Rightarrow> bool" where
  "tied lt a b = (\<not> lt a b \<and> \<not> lt b a)"

definition runs_Sort :: "Env \<Rightarrow> bool" where
  "runs_Sort env =
     (\<forall>lt xs ys. Sort lt xs = Some ys \<longrightarrow> sort_Sort env lt xs = ys)"
section \<open>Properties of the byte formatter\<close>

lemma digit_char_digit: "digit_char d \<in> set ''0123456789''"
  unfolding digit_char_def by (rule nth_mem) simp

lemma itoa_nat_digits: "is_digits (itoa_nat n)"
proof (induction n rule: itoa_nat.induct)
  case (1 n)
  show ?case
  proof (cases "n < 10")
    case True
    then show ?thesis
      using digit_char_digit [of n] by (subst itoa_nat.simps) (simp add: is_digits_def)
  next
    case False
    then show ?thesis
      using 1 digit_char_digit [of "n mod 10"]
      by (subst itoa_nat.simps) (simp add: is_digits_def)
  qed
qed

lemma trim_spaces_id: "CHR '' '' \<notin> set s \<Longrightarrow> trim_spaces s = s"
proof -
  assume a: "CHR '' '' \<notin> set s"
  have d: "dropWhile (\<lambda>c. c = CHR '' '') t = t" if "CHR '' '' \<notin> set t" for t
    using that by (cases t) auto
  show ?thesis
    unfolding trim_spaces_def using a by (simp add: d)
qed

lemma is_digits_no_space: "is_digits s \<Longrightarrow> CHR '' '' \<notin> set s"
  by (auto simp: is_digits_def)

lemma fmt_f0_digits: "0 \<le> f \<Longrightarrow> is_digits (fmt_f0 f k)"
  by (simp add: fmt_f0_def Let_def itoa_nat_digits)

lemma fmt_f0_no_space: "CHR '' '' \<notin> set (fmt_f0 f k)"
  using is_digits_no_space [OF itoa_nat_digits]
  by (simp add: fmt_f0_def Let_def)

lemma digit_char_no_space: "digit_char d \<noteq> CHR '' ''"
  using digit_char_digit [of d] by auto

lemma is_digits_digit_char: "is_digits [digit_char d]"
  using digit_char_digit [of d] by (auto simp: is_digits_def)

lemma fmt_f1_no_space: "CHR '' '' \<notin> set (fmt_f1 f k)"
proof -
  have "CHR '' '' \<notin> set (itoa_nat n)" for n
    by (rule is_digits_no_space [OF itoa_nat_digits])
  moreover have "CHR '' '' \<noteq> digit_char d" for d
    using digit_char_no_space [of d] by simp
  ultimately show ?thesis
    by (simp add: fmt_f1_def Let_def)
qed

lemma fmt_f1_shape:
  "0 \<le> f \<Longrightarrow> \<exists>ds d. fmt_f1 f k = ds @ ''.'' @ [d] \<and> is_digits ds \<and> is_digits [d]"
  by (simp add: fmt_f1_def Let_def itoa_nat_digits is_digits_digit_char)

lemma float64_exact: "\<bar>i\<bar> < 2 ^ 53 \<Longrightarrow> float64_of_int i = i"
proof -
  assume a: "\<bar>i\<bar> < 2 ^ 53"
  then have "nat \<bar>i\<bar> < 2 ^ 53" by simp
  then have e: "excess_bits (nat \<bar>i\<bar>) = 0"
    by (subst excess_bits.simps) simp
  have "sgn i * \<bar>i\<bar> = i" by (simp add: mult_sgn_abs)
  then show ?thesis
    by (simp add: float64_of_int_def e Let_def round_half_even_def)
qed

lemma unit_suffix_no_space: "(s, k) \<in> set units \<Longrightarrow> CHR '' '' \<notin> set s"
  by (auto simp: units_def)

lemma fmt_f0_itoa: "fmt_f0 f 0 = itoa f"
  by (simp add: fmt_f0_def itoa_def round_half_even_def Let_def)

lemma formatBytes_plain:
  assumes "sint w \<le> KB"
  shows "formatBytes w = itoa (float64_of_int (sint w))"
  unfolding fmt_f0_itoa [symmetric]
  using assms fmt_f0_no_space [of "float64_of_int (sint w)" 0]
  by (simp add: formatBytes_def unit_of_def KB_def MB_def GB_def TB_def PB_def EB_def trim_spaces_id)

lemma formatBytes_unit:
  assumes "(s, k) \<in> set units" "2 ^ k < sint w" "k < 60 \<longrightarrow> sint w \<le> 2 ^ (k + 10)"
  shows "formatBytes w =
     (if float64_of_int (sint w) < 10 * 2 ^ k then fmt_f1 (float64_of_int (sint w)) k
      else fmt_f0 (float64_of_int (sint w)) k) @ s"
proof -
  have u: "unit_of (sint w) = (s, k)"
    using assms by (auto simp: units_def unit_of_def KB_def MB_def GB_def TB_def PB_def EB_def)
  have ns: "CHR '' '' \<notin> set s" "s \<noteq> []" using assms(1) by (auto simp: units_def)
  show ?thesis
    using ns fmt_f0_no_space fmt_f1_no_space
    by (simp add: formatBytes_def u Let_def trim_spaces_id not_le)
qed

lemma formatBytes_999: "formatBytes 999 = ''999''" by code_simp
lemma formatBytes_1024: "formatBytes 1024 = ''1024''" by code_simp
lemma formatBytes_1025: "formatBytes 1025 = ''1.0K''" by code_simp
lemma formatBytes_10240: "formatBytes 10240 = ''10K''" by code_simp

text \<open>
  Claim C7. \<^verbatim>\<open>formatBytes\<close> picks its unit with strict \<^verbatim>\<open>>\<close> comparisons: a value of at
  most \<open>1024\<close> is printed as a plain integer with no suffix and no decimals; a value above
  \<open>2^k\<close> and not above the next unit is divided by \<open>2^k\<close> and gets that unit's suffix, with
  one decimal digit while the scaled value is below \<open>10\<close> and none from \<open>10\<close> on. In
  particular \<open>999\<close> gives \<open>999\<close>, the boundary \<open>1024\<close> gives \<open>1024\<close>, \<open>1025\<close> gives \<open>1.0K\<close>
  and \<open>10240\<close> gives \<open>10K\<close>. The scaled value is the one the code computes in
  \<^verbatim>\<open>float64\<close>, which is the exact quotient for every size below \<open>2^53\<close>.
\<close>

theorem formatBytes_unit_selection:
  "(sint w \<le> KB \<longrightarrow> formatBytes w = itoa (float64_of_int (sint w)))
   \<and> (\<forall>(s, k) \<in> set units. 2 ^ k < sint w \<and> (k < 60 \<longrightarrow> sint w \<le> 2 ^ (k + 10)) \<longrightarrow>
         formatBytes w =
           (if float64_of_int (sint w) < 10 * 2 ^ k then fmt_f1 (float64_of_int (sint w)) k
            else fmt_f0 (float64_of_int (sint w)) k) @ s)
   \<and> (0 \<le> f \<longrightarrow> (\<exists>ds d. fmt_f1 f k = ds @ ''.'' @ [d] \<and> is_digits ds \<and> is_digits [d])
         \<and> is_digits (fmt_f0 f k))
   \<and> (\<bar>sint w\<bar> < 2 ^ 53 \<longrightarrow> float64_of_int (sint w) = sint w)
   \<and> formatBytes 999 = ''999'' \<and> formatBytes 1024 = ''1024''
   \<and> formatBytes 1025 = ''1.0K'' \<and> formatBytes 10240 = ''10K''"
proof -
  have un: "\<forall>(s, k) \<in> set units. 2 ^ k < sint w \<and> (k < 60 \<longrightarrow> sint w \<le> 2 ^ (k + 10)) \<longrightarrow>
         formatBytes w =
           (if float64_of_int (sint w) < 10 * 2 ^ k then fmt_f1 (float64_of_int (sint w)) k
            else fmt_f0 (float64_of_int (sint w)) k) @ s"
    using formatBytes_unit [of _ _ w] by blast
  have pl: "sint w \<le> KB \<longrightarrow> formatBytes w = itoa (float64_of_int (sint w))"
    using formatBytes_plain [of w] by blast
  have sh: "0 \<le> f \<longrightarrow> (\<exists>ds d. fmt_f1 f k = ds @ ''.'' @ [d] \<and> is_digits ds \<and> is_digits [d])
         \<and> is_digits (fmt_f0 f k)"
    using fmt_f1_shape [of f k] fmt_f0_digits [of f k] by blast
  have fl: "\<bar>sint w\<bar> < 2 ^ 53 \<longrightarrow> float64_of_int (sint w) = sint w"
    using float64_exact [of "sint w"] by blast
  from pl un sh fl formatBytes_999 formatBytes_1024 formatBytes_1025 formatBytes_10240
  show ?thesis by (intro conjI)
qed

lemma eval_fmt_1: "fmt_f1 1500 10 = ''1.5''" by code_simp
lemma eval_fmt_2: "fmt_f1 12499 10 = ''12.2''" by code_simp
lemma eval_fmt_3: "fmt_f0 12499 10 = ''12''" by code_simp
lemma eval_fmt_4: "itoa (float64_of_int 1000) = ''1000''" by code_simp

theorem formatBytes_unit_selection_witness:
  "sint (1000 :: int64) \<le> KB \<and> formatBytes 1000 = ''1000''
   \<and> (''K'', 10) \<in> set units \<and> (2 :: int) ^ 10 < sint (1500 :: int64)
   \<and> sint (1500 :: int64) \<le> 2 ^ (10 + 10) \<and> formatBytes 1500 = ''1.5K''
   \<and> (0 :: int) \<le> 12499 \<and> fmt_f1 12499 10 = ''12.2'' \<and> fmt_f0 12499 10 = ''12''
   \<and> \<bar>sint (1500 :: int64)\<bar> < 2 ^ 53 \<and> float64_of_int (sint (1500 :: int64)) = 1500"
proof -
  have s: "sint (1000 :: int64) = 1000" "sint (1500 :: int64) = 1500" by simp_all
  have a: "formatBytes 1000 = itoa (float64_of_int (sint (1000 :: int64)))"
    using formatBytes_unit_selection [of 1000 0 0] by (simp add: s KB_def)
  have b: "float64_of_int (sint (1500 :: int64)) = 1500"
    using formatBytes_unit_selection [of 1500 0 0] by (simp add: s)
  have c: "formatBytes 1500 = fmt_f1 1500 10 @ ''K''"
    using formatBytes_unit_selection [of 1500 0 0] by (simp add: s units_def b)
  show ?thesis
    using a b c eval_fmt_1 eval_fmt_2 eval_fmt_3 eval_fmt_4 by (simp add: s units_def KB_def)
qed

section \<open>Properties of the matcher\<close>

lemma match_Ok:
  "info node = Some fi \<Longrightarrow>
   match env pattern opt node =
     Ok (regex_finds env opt pattern (if CHR ''*'' \<in> set pattern then path node else Name fi))"
  by (simp add: match_def regex_finds_def case_prefix_def Let_def)

lemma and_match_not_Panic: "info node \<noteq> None \<Longrightarrow> \<exists>b. and_match c env pattern opt node = Ok b"
  by (auto simp: and_match_def match_def Let_def)

lemma keep_child_Ok:
  "visited nnode \<Longrightarrow> \<exists>b. keep_child env opts dm nnode f = Ok b"
proof -
  assume "visited nnode"
  then have a: "err nnode \<noteq> None \<or> info nnode \<noteq> None" by (simp add: visited_def)
  show ?thesis
  proof (cases "err nnode \<noteq> None")
    case True
    then have "keep_child env opts dm nnode f = Ok True" by (simp add: keep_child_def)
    then show ?thesis by blast
  next
    case False
    with a obtain fi where fi: "info nnode = Some fi" by auto
    have m: "\<exists>b. and_match c env p opts nnode = Ok b" for c p
      using and_match_not_Panic [of nnode] fi by simp
    from m [of "MatchDirs opts \<and> IPattern opts \<noteq> ''''" "IPattern opts"]
    obtain b1 where b1: "and_match (MatchDirs opts \<and> IPattern opts \<noteq> '''') env (IPattern opts) opts nnode = Ok b1" by blast
    from m [of "\<not> dm \<and> Pattern opts \<noteq> ''''" "Pattern opts"]
    obtain b2 where b2: "and_match (\<not> dm \<and> Pattern opts \<noteq> '''') env (Pattern opts) opts nnode = Ok b2" by blast
    from m [of "IPattern opts \<noteq> ''''" "IPattern opts"]
    obtain b3 where b3: "and_match (IPattern opts \<noteq> '''') env (IPattern opts) opts nnode = Ok b3" by blast
    show ?thesis
      using False fi b1 b2 b3 by (auto simp: keep_child_def bind_def)
  qed
qed

lemma match_dirs_Ok: "info node \<noteq> None \<Longrightarrow> \<exists>r. match_dirs env opts node = Ok r"
proof -
  assume "info node \<noteq> None"
  then obtain fi where fi: "info node = Some fi" by auto
  show ?thesis
    using match_Ok [OF fi] and_match_not_Panic [of node "IPattern opts \<noteq> ''''" env "IPattern opts" opts] fi
    by (auto simp: match_dirs_def bind_def)
qed

lemma Visit_children_no_panic:
  assumes "\<And>nd v. visit nd v \<noteq> Panic"
    and "\<And>nd v r d f v'. visit nd v = Ok (r, d, f, v') \<Longrightarrow> visited r"
  shows "Visit_children visit env opts node dm names ns dirs files vp \<noteq> Panic"
proof (induction names arbitrary: ns dirs files vp)
  case Nil
  show ?case by simp
next
  case (Cons name rest)
  show ?case
  proof (cases "\<not> All opts \<and> HasPrefix name ''.''")
    case True
    then show ?thesis using Cons by simp
  next
    case False
    let ?c = "Node None (filepath_Join env (path node) name) (depth node + 1) None []"
    show ?thesis
    proof (cases "visit ?c vp")
      case (Ok r)
      obtain nn d f v' where r: "r = (nn, d, f, v')" by (cases r) auto
      from assms(2) Ok r have vn: "visited nn" by blast
      obtain b where b: "keep_child env opts dm nn f = Ok b"
        using keep_child_Ok [OF vn] by blast
      show ?thesis using False Ok r b Cons by (auto simp: bind_def)
    next
      case Panic
      then show ?thesis using assms(1) by simp
    next
      case OutOfFuel
      then show ?thesis using False by (auto simp: bind_def)
    qed
  qed
qed

lemma Visit_visited_and_no_panic:
  "Visit n env opts node vp \<noteq> Panic \<and>
   (\<forall>r d f v'. Visit n env opts node vp = Ok (r, d, f, v') \<longrightarrow> visited r)"
proof (induction n arbitrary: node vp)
  case 0
  show ?case by simp
next
  case (Suc n)
  have np: "\<And>nd v. Visit n env opts nd v \<noteq> Panic" using Suc by blast
  have vs: "\<And>nd v r d f v'. Visit n env opts nd v = Ok (r, d, f, v') \<Longrightarrow> visited r" using Suc by blast
  have ch: "\<And>dm names ns dirs files v. Visit_children (Visit n env opts) env opts (set_info fi node) dm names ns dirs files v \<noteq> Panic" for fi
    by (rule Visit_children_no_panic [OF np vs])
  show ?case
  proof (cases "Stat (Fs opts) (path node)")
    case (Inl e)
    then show ?thesis by (simp add: visited_def set_err_def)
  next
    case (Inr fi)
    have i1: "info (set_info fi node) \<noteq> None" by (simp add: set_info_def)
    obtain r where r: "match_dirs env opts (set_info fi node) = Ok r"
      using match_dirs_Ok [OF i1] by blast
    show ?thesis
      using Inr r ch [of fi]
      by (auto simp: Let_def bind_def visited_def set_info_def set_err_def set_nodes_def
          split: option.splits sum.splits result.splits)
  qed
qed

lemma Visit_no_panic: "Visit n env opts node vp \<noteq> Panic"
  using Visit_visited_and_no_panic by blast

lemma Visit_visited: "Visit n env opts node vp = Ok (r, d, f, v') \<Longrightarrow> visited r"
  using Visit_visited_and_no_panic by blast

text \<open>
  Claim C6. For a node with metadata, \<^verbatim>\<open>match\<close> looks for the pattern, compiled as a
  regular expression, in the base name when the pattern has no \<open>*\<close> and in the path
  when it has one. A pattern that does not compile gives "no match" for every such
  node, and no call of \<^verbatim>\<open>Visit\<close> panics, whatever the patterns are.
\<close>

theorem match_candidate_text:
  assumes "info node = Some fi"
  shows "(CHR ''*'' \<notin> set pattern \<longrightarrow> match env pattern opt node = Ok (regex_finds env opt pattern (Name fi)))
    \<and> (CHR ''*'' \<in> set pattern \<longrightarrow> match env pattern opt node = Ok (regex_finds env opt pattern (path node)))
    \<and> (regexp_Compile env (case_prefix opt @ pattern) = None \<longrightarrow> match env pattern opt node = Ok False)
    \<and> Visit n env opts root vp \<noteq> Panic"
  using match_Ok [OF assms, of env pattern opt] Visit_no_panic [of n env opts root vp]
  by (simp add: regex_finds_def)

lemma abc_node_info: "info abc_node = Some (file_info (plain ''abc'' 50))"
  by (simp add: abc_node_def)

lemma abc_node_text: "Name (file_info (plain ''abc'' 50)) = ''abc''" "path abc_node = ''root/abc''"
  by (simp_all add: abc_node_def file_info_def plain_def)

lemma test_Compile_b: "regex_finds test_env opts0 ''b'' ''abc''"
  by (simp add: regex_finds_def case_prefix_def opts0_def test_opts_def test_env_def
      test_Compile_def FindString_def)

lemma test_Compile_star: "regex_finds test_env opts0 ''o*t'' ''root/abc''"
  by (simp add: regex_finds_def case_prefix_def opts0_def test_opts_def test_env_def
      test_Compile_def FindString_def)

lemma test_Compile_invalid: "regexp_Compile test_env (case_prefix opts0 @ ''*a'') = None"
  by (simp add: case_prefix_def opts0_def test_opts_def test_env_def test_Compile_def)

theorem match_candidate_text_witness:
  "info abc_node = Some (file_info (plain ''abc'' 50))
   \<and> CHR ''*'' \<notin> set ''b'' \<and> match test_env ''b'' opts0 abc_node = Ok True
   \<and> CHR ''*'' \<in> set ''o*t'' \<and> match test_env ''o*t'' opts0 abc_node = Ok True
   \<and> regexp_Compile test_env (case_prefix opts0 @ ''*a'') = None
   \<and> match test_env ''*a'' opts0 abc_node = Ok False"
proof -
  note t = match_candidate_text [OF abc_node_info, of _ test_env opts0 0 opts0 abc_node "{}"]
  have 1: "match test_env ''b'' opts0 abc_node = Ok True"
    using t [of "''b''"] test_Compile_b by (simp add: abc_node_text)
  have 2: "match test_env ''o*t'' opts0 abc_node = Ok True"
    using t [of "''o*t''"] test_Compile_star by (simp add: abc_node_text)
  have 3: "match test_env ''*a'' opts0 abc_node = Ok False"
    using t [of "''*a''"] test_Compile_invalid by blast
  show ?thesis
    using 1 2 3 abc_node_info test_Compile_invalid by simp
qed

text \<open>
  Claim C10. When the pattern compiles and its leftmost match in the candidate text is
  the empty string, \<^verbatim>\<open>match\<close> reports "no match": \<^verbatim>\<open>FindString\<close> then returns the empty
  string, which is what it also returns when nothing matches.
\<close>

theorem match_empty_leftmost_match:
  assumes "info node = Some fi"
    and "regexp_Compile env (case_prefix opt @ pattern) = Some re"
    and "re (if CHR ''*'' \<in> set pattern then path node else Name fi) = Some ''''"
  shows "match env pattern opt node = Ok False"
  using assms by (simp add: match_def case_prefix_def FindString_def Let_def)

lemma test_Compile_x_star:
  "regexp_Compile test_env (case_prefix opts0 @ ''x*'') = Some (leftmost [Star CHR ''x''])"
  by (simp add: case_prefix_def opts0_def test_opts_def test_env_def test_Compile_def)

lemma leftmost_x_star: "leftmost [Star CHR ''x''] ''root/abc'' = Some ''''"
  by simp

theorem match_empty_leftmost_match_witness:
  "info abc_node = Some (file_info (plain ''abc'' 50))
   \<and> regexp_Compile test_env (case_prefix opts0 @ ''x*'') = Some (leftmost [Star CHR ''x''])
   \<and> leftmost [Star CHR ''x''] (if CHR ''*'' \<in> set ''x*'' then path abc_node
        else Name (file_info (plain ''abc'' 50))) = Some ''''
   \<and> match test_env ''x*'' opts0 abc_node = Ok False"
proof -
  have c: "leftmost [Star CHR ''x''] (if CHR ''*'' \<in> set ''x*'' then path abc_node
        else Name (file_info (plain ''abc'' 50))) = Some ''''"
    using leftmost_x_star by (simp add: abc_node_text)
  from match_empty_leftmost_match [OF abc_node_info test_Compile_x_star c]
  show ?thesis using abc_node_info test_Compile_x_star c by blast
qed

section \<open>The line of a node with an error\<close>

lemma Split_colon_no_sep: "\<not> has_sep s \<Longrightarrow> Split_colon acc s = [rev acc @ s]"
  by (induction acc s rule: Split_colon.induct) auto

lemma Split_colon_first:
  "\<not> has_sep a \<Longrightarrow>
   Split_colon acc (a @ CHR '':'' # CHR '' '' # b) = (rev acc @ a) # Split_colon [] b"
  by (induction a arbitrary: acc rule: has_sep.induct) auto

lemma short_error_no_sep: "\<not> has_sep e \<Longrightarrow> short_error e = e"
  by (simp add: short_error_def Split_colon_no_sep)

lemma short_error_one_sep:
  "\<not> has_sep a \<Longrightarrow> \<not> has_sep b \<Longrightarrow> short_error (a @ '': '' @ b) = b"
  by (simp add: short_error_def Split_colon_first Split_colon_no_sep)

lemma print_error:
  "err node = Some e \<Longrightarrow>
   print (Suc n) env opts indent node vp = Ok ([ErrorLine (error_line env opts node e)], node, vp)"
  by simp

text \<open>
  Claim C2, as amended. For a node with a recorded error \<^verbatim>\<open>print\<close> writes one line, a
  name followed by the short message in brackets, and returns: nothing else is written,
  the children are not visited and the node and the visited paths are unchanged. The
  name is the path of the node when full paths are asked for and the base name of the
  path otherwise, and the options for quotes and colour do not change the line. The
  short message is the full error text when it has no separator \<^verbatim>\<open>": "\<close>, and the tail
  after the separator when it has exactly one.
\<close>

theorem print_error_line:
  assumes "err node = Some e"
  shows "print (Suc n) env opts indent node vp =
           Ok ([ErrorLine ((if FullPath opts then path node else filepath_Base env (path node))
                           @ '' ['' @ short_error e @ '']'' @ [CHR 0x0A])], node, vp)
    \<and> print (Suc n) env (opts\<lparr>Quotes := q, Colorize := c\<rparr>) indent node vp
        = print (Suc n) env opts indent node vp
    \<and> (\<not> has_sep e \<longrightarrow> short_error e = e)
    \<and> (\<not> has_sep a \<and> \<not> has_sep b \<longrightarrow> short_error (a @ '': '' @ b) = b)"
  using assms short_error_no_sep short_error_one_sep
  by (simp add: error_line_def error_name_def)

lemma has_sep_examples:
  "\<not> has_sep ''stat failed''" "\<not> has_sep ''lstat root/x''" "\<not> has_sep ''no such file''"
  by simp_all

theorem print_error_line_witness:
  "err (bad_node ''stat failed'') = Some ''stat failed''
   \<and> print (Suc 0) test_env opts0 '''' (bad_node ''stat failed'') {} =
       Ok ([ErrorLine (''x [stat failed]'' @ [CHR 0x0A])], bad_node ''stat failed'', {})
   \<and> print (Suc 0) test_env (opts0\<lparr>Quotes := True, Colorize := True\<rparr>) '''' (bad_node ''stat failed'') {} =
       Ok ([ErrorLine (''x [stat failed]'' @ [CHR 0x0A])], bad_node ''stat failed'', {})
   \<and> \<not> has_sep ''stat failed'' \<and> short_error ''stat failed'' = ''stat failed''
   \<and> \<not> has_sep ''lstat root/x'' \<and> \<not> has_sep ''no such file''
   \<and> short_error (''lstat root/x'' @ '': '' @ ''no such file'') = ''no such file''"
proof -
  have e: "err (bad_node ''stat failed'') = Some ''stat failed''"
    by (simp add: bad_node_def)
  have n: "\<not> FullPath opts0" "filepath_Base test_env (path (bad_node ''stat failed'')) = ''x''"
    by (simp_all add: bad_node_def opts0_def test_opts_def test_env_def test_Base_def)
  note t = print_error_line [OF e, of 0 test_env opts0 "''''" "{}" True True
      "''lstat root/x''" "''no such file''"]
  have s: "short_error ''stat failed'' = ''stat failed''"
    using t has_sep_examples by blast
  have p: "print (Suc 0) test_env opts0 '''' (bad_node ''stat failed'') {} =
       Ok ([ErrorLine (''x [stat failed]'' @ [CHR 0x0A])], bad_node ''stat failed'', {})"
    using t by (simp add: n s)
  have q: "print (Suc 0) test_env (opts0\<lparr>Quotes := True, Colorize := True\<rparr>) '''' (bad_node ''stat failed'') {} =
       Ok ([ErrorLine (''x [stat failed]'' @ [CHR 0x0A])], bad_node ''stat failed'', {})"
    using t p by simp
  have m: "short_error (''lstat root/x'' @ '': '' @ ''no such file'') = ''no such file''"
    using t has_sep_examples by blast
  show ?thesis
    using e p q s m has_sep_examples by blast
qed

text \<open>
  The claim as it was stated fails in the name and in the message. With quotes asked
  for, the line of a directory whose listing failed carries the bare base name, where
  the display name is quoted; and where the error text has two separators, the line
  carries the piece between them, not the tail after the first one.
\<close>

theorem print_error_line_counterexample:
  "print (Suc 0) test_env (opts0\<lparr>Quotes := True\<rparr>) '''' (listfail_node ''open root/c: permission denied'') {} =
     Ok ([ErrorLine (''c [permission denied]'' @ [CHR 0x0A])],
         listfail_node ''open root/c: permission denied'', {})
   \<and> spec_error_line test_env (opts0\<lparr>Quotes := True\<rparr>) (listfail_node ''open root/c: permission denied'')
        (dir_info ''c'') ''open root/c: permission denied''
      = [CHR 0x22] @ ''c'' @ [CHR 0x22] @ '' [permission denied]'' @ [CHR 0x0A]
   \<and> print (Suc 0) test_env opts0 '''' (bad_node ''a: b: c'') {} =
     Ok ([ErrorLine (''x [b]'' @ [CHR 0x0A])], bad_node ''a: b: c'', {})
   \<and> spec_short_error ''a: b: c'' = ''b: c''"
  by code_simp
section \<open>The annotations of a directory\<close>

lemma dirRecursiveSize_DeepLevel:
  "DeepLevel opts' = DeepLevel opts \<Longrightarrow> dirRecursiveSize opts' node = dirRecursiveSize opts node"
  "DeepLevel opts' = DeepLevel opts \<Longrightarrow>
     dirRecursiveSize_loop opts' ns sz er = dirRecursiveSize_loop opts ns sz er"
  by (induction opts node and opts ns sz er rule: dirRecursiveSize_dirRecursiveSize_loop.induct)
     (auto split: option.splits result.splits)

lemma size_prop_flags:
  "size_prop (opts\<lparr>Inodes := i, Device := dv, FileMode := m, ShowUid := u, ShowGid := g, LastMod := l\<rparr>)
     = size_prop opts"
  by (rule ext) (simp add: size_prop_def)

lemma dir_props_flags:
  "dir_props (opts\<lparr>Inodes := i, Device := dv, FileMode := m, ShowUid := u, ShowGid := g, LastMod := l\<rparr>) node
     = dir_props opts node"
  using dirRecursiveSize_DeepLevel(1) [of "opts\<lparr>Inodes := i, Device := dv, FileMode := m, ShowUid := u, ShowGid := g, LastMod := l\<rparr>" opts node]
  by (cases "dirRecursiveSize opts node") (auto simp: dir_props_def bind_def size_prop_flags)

lemma dir_props_length:
  "dir_props opts node = Ok ps \<Longrightarrow> length ps \<le> 1 \<and> (ps \<noteq> [] \<longrightarrow> ByteSize opts \<or> UnitSize opts)"
  by (auto simp: dir_props_def bind_def split: if_splits result.splits)

lemma print_directory_line:
  assumes "err node = None" "info node = Some fi" "IsDir fi"
    and "print (Suc n) env opts indent node vp = Ok (out, node', vp')"
  shows "\<exists>ps name rest. out = props_chunk ps @ NameText name # rest \<and> dir_props opts node = Ok ps"
  using assms
  by (auto simp: props_def bind_def split: result.splits prod.splits)

text \<open>
  Claim C9. The line that \<^verbatim>\<open>print\<close> writes for a directory without error starts with
  the annotation block and the name; the block holds at most one annotation, the size,
  present only under \<^verbatim>\<open>ByteSize\<close> or \<^verbatim>\<open>UnitSize\<close>; and the options for inode, device,
  mode, owner, group and last modification have no effect on it, whatever their values.
\<close>

theorem directory_annotation_block:
  assumes "err node = None" "info node = Some fi" "IsDir fi"
    and "print (Suc n) env opts indent node vp = Ok (out, node', vp')"
  shows "\<exists>ps name rest.
           out = props_chunk ps @ NameText name # rest
         \<and> dir_props opts node = Ok ps
         \<and> length ps \<le> 1 \<and> (ps \<noteq> [] \<longrightarrow> ByteSize opts \<or> UnitSize opts)
         \<and> dir_props (opts\<lparr>Inodes := i, Device := dv, FileMode := m, ShowUid := u, ShowGid := g,
              LastMod := l\<rparr>) node = Ok ps"
proof -
  from print_directory_line [OF assms]
  obtain ps name rest where
    o: "out = props_chunk ps @ NameText name # rest" and p: "dir_props opts node = Ok ps"
    by blast
  from dir_props_length [OF p] o p
  show ?thesis by (simp add: dir_props_flags)
qed

lemma dir_node_facts:
  "err dir_node = None"
  "info dir_node = Some (file_info (File ''root'' 200 0 0 (Some [plain ''abc'' 50])))"
  "IsDir (file_info (File ''root'' 200 0 0 (Some [plain ''abc'' 50])))"
  by (simp_all add: dir_node_def file_info_def)

lemma print_dir_node:
  "print (Suc 1) test_env all_annotations '''' dir_node {} =
     Ok ([Props ''[         50]  '', NameText ''root'', EndLine, Branch glyph_corner,
          Props ''[1   2 ---------- 3        4             50 Jan 02 15:04]  '',
          NameText ''abc'', EndLine], dir_node, {})"
  by code_simp

lemma dir_props_dir_node: "dir_props all_annotations dir_node = Ok [''         50'']"
  by code_simp

theorem directory_annotation_block_witness:
  "err dir_node = None
   \<and> info dir_node = Some (file_info (File ''root'' 200 0 0 (Some [plain ''abc'' 50])))
   \<and> IsDir (file_info (File ''root'' 200 0 0 (Some [plain ''abc'' 50])))
   \<and> print (Suc 1) test_env all_annotations '''' dir_node {} =
       Ok ([Props ''[         50]  '', NameText ''root'', EndLine, Branch glyph_corner,
            Props ''[1   2 ---------- 3        4             50 Jan 02 15:04]  '',
            NameText ''abc'', EndLine], dir_node, {})
   \<and> dir_props all_annotations dir_node = Ok [''         50'']
   \<and> dir_props (all_annotations\<lparr>Inodes := False, Device := False, FileMode := False,
        ShowUid := False, ShowGid := False, LastMod := False\<rparr>) dir_node = Ok [''         50'']"
proof -
  from directory_annotation_block [OF dir_node_facts print_dir_node,
      of False False False False False False]
  have "dir_props (all_annotations\<lparr>Inodes := False, Device := False, FileMode := False,
        ShowUid := False, ShowGid := False, LastMod := False\<rparr>) dir_node = Ok [''         50'']"
    using dir_props_dir_node by auto
  then show ?thesis
    using dir_node_facts print_dir_node dir_props_dir_node by blast
qed

section \<open>Properties of the size aggregator\<close>

lemma descendants_below: "descendants node = below (nodes node)"
  by (cases node) (simp add: below_def)

lemma file_sizes_sizes_of: "file_sizes node = sizes_of (nodes node)"
  by (cases node) (simp add: sizes_of_def)

lemma below_Nil [simp]: "below [] = []"
  by (simp add: below_def)

lemma below_Cons [simp]: "below (c # ns) = c # below (nodes c) @ below ns"
proof -
  have "below (c # ns) = c # descendants c @ below ns" by (simp add: below_def)
  then show ?thesis by (simp only: descendants_below)
qed

lemma sizes_of_Nil [simp]: "sizes_of [] = 0"
  by (simp add: sizes_of_def)

lemma sizes_of_Cons [simp]:
  "sizes_of (c # ns) = own_file_size c + sizes_of (nodes c) + sizes_of ns"
proof -
  have "sizes_of (c # ns) = own_file_size c + file_sizes c + sizes_of ns" by (simp add: sizes_of_def)
  then show ?thesis by (simp only: file_sizes_sizes_of)
qed

lemma well_built_nodes: "well_built node \<Longrightarrow> list_all well_built (nodes node)"
  by (cases node) simp

lemma well_built_err: "well_built c \<Longrightarrow> err c \<noteq> None \<Longrightarrow> nodes c = [] \<and> own_file_size c = 0"
  by (cases c) (auto simp: own_file_size_def split: option.splits)

lemma well_built_file:
  "well_built c \<Longrightarrow> err c = None \<Longrightarrow> \<exists>fi. info c = Some fi \<and> (\<not> IsDir fi \<longrightarrow> nodes c = [])"
  by (cases c) (auto split: option.splits)

lemma dirRecursiveSize_sum:
  "well_built node \<Longrightarrow>
     \<exists>er'. dirRecursiveSize opts node = Ok (sizes_of (nodes node), er')
          \<and> err_from None (below (nodes node)) er'"
  "list_all well_built ns \<Longrightarrow>
     \<exists>er'. dirRecursiveSize_loop opts ns sz er = Ok (sz + sizes_of ns, er')
          \<and> err_from er (below ns) er'"
proof (induction opts node and opts ns sz er rule: dirRecursiveSize_dirRecursiveSize_loop.induct)
  case (1 opts fi p d e ns)
  then have "list_all well_built ns" by simp
  from 1(1) [OF this] show ?case
    by (auto simp: err_from_def)
next
  case (2 opts sz er)
  show ?case by (simp add: err_from_def)
next
  case (3 opts nnode rest sz er)
  from 3(5) have wc: "well_built nnode" and wr: "list_all well_built rest" by simp_all
  show ?case
  proof (cases "err nnode")
    case (Some x)
    then have c0: "nodes nnode = []" "own_file_size nnode = 0"
      using well_built_err [OF wc] by simp_all
    from 3(1) [OF _ wr] Some
    obtain er' where r: "dirRecursiveSize_loop opts rest sz (err nnode) = Ok (sz + sizes_of rest, er')"
      and ef: "err_from (err nnode) (below rest) er'" by auto
    show ?thesis using Some c0 r ef by (auto simp: err_from_def)
  next
    case None
    from well_built_file [OF wc None] obtain nfi where
      nfi: "info nnode = Some nfi" and leaf: "\<not> IsDir nfi \<longrightarrow> nodes nnode = []" by blast
    show ?thesis
    proof (cases "IsDir nfi")
      case False
      with leaf have c0: "nodes nnode = []" by simp
      have o: "own_file_size nnode = Size nfi" using nfi False by (simp add: own_file_size_def)
      from 3(2) [OF _ nfi _ wr] None False
      obtain er' where r: "dirRecursiveSize_loop opts rest (sz + Size nfi) er = Ok (sz + Size nfi + sizes_of rest, er')"
        and ef: "err_from er (below rest) er'" by auto
      show ?thesis using None nfi False c0 o r ef by (auto simp: err_from_def)
    next
      case True
      have o: "own_file_size nnode = 0" using nfi True by (simp add: own_file_size_def)
      from 3(3) [OF _ nfi _ wc] None True
      obtain e1 where r1: "dirRecursiveSize opts nnode = Ok (sizes_of (nodes nnode), e1)"
        and ef1: "err_from None (below (nodes nnode)) e1" by auto
      from 3(4) [OF _ nfi _ r1 refl wr] None True
      obtain er' where r: "dirRecursiveSize_loop opts rest (sz + sizes_of (nodes nnode)) (if e1 \<noteq> None then e1 else er)
           = Ok (sz + sizes_of (nodes nnode) + sizes_of rest, er')"
        and ef: "err_from (if e1 \<noteq> None then e1 else er) (below rest) er'" by auto
      show ?thesis using None nfi True o r1 r ef ef1
        by (auto simp: err_from_def)
    qed
  qed
qed

lemma well_built_below: "list_all well_built ns \<Longrightarrow> c \<in> set (below ns) \<Longrightarrow> well_built c"
proof (induction "sum_list (map size ns)" arbitrary: ns c rule: less_induct)
  case less
  show ?case
  proof (cases ns)
    case Nil
    with less(3) show ?thesis by simp
  next
    case (Cons a rest)
    from less(2) Cons have wa: "well_built a" and wr: "list_all well_built rest" by simp_all
    from less(3) Cons consider "c = a" | "c \<in> set (below (nodes a))" | "c \<in> set (below rest)" by auto
    then show ?thesis
    proof cases
      case 1
      with wa show ?thesis by simp
    next
      case 2
      have "sum_list (map size (nodes a)) < sum_list (map size ns)"
        using Cons by (cases a) (simp add: size_list_conv_sum_list)
      from less(1) [OF this well_built_nodes [OF wa] 2] show ?thesis .
    next
      case 3
      have "sum_list (map size rest) < sum_list (map size ns)"
        using Cons by (cases a) simp
      from less(1) [OF this wr 3] show ?thesis .
    qed
  qed
qed

lemma well_built_descendants:
  "well_built r \<Longrightarrow> c \<in> set (r # descendants r) \<Longrightarrow> well_built c"
  using well_built_below [OF well_built_nodes, of r c] by (auto simp: descendants_below)

section \<open>The trees that the visitor builds\<close>

lemma fresh_simps:
  "fresh node \<Longrightarrow> well_built (set_err e node)"
  "fresh node \<Longrightarrow> well_built (set_info fi node)"
  "fresh node \<Longrightarrow> IsDir fi \<Longrightarrow> well_built (set_err e (set_info fi node))"
  "fresh node \<Longrightarrow> depth_inv (set_err e node)"
  "fresh node \<Longrightarrow> depth_inv (set_info fi node)"
  "fresh node \<Longrightarrow> depth_inv (set_err e (set_info fi node))"
  by (cases node; auto simp: fresh_def set_err_def set_info_def split: option.splits)+

lemma set_depth [simp]:
  "depth (set_err e node) = depth node" "depth (set_info fi node) = depth node"
  "depth (set_nodes ns node) = depth node"
  by (simp_all add: set_err_def set_info_def set_nodes_def)

lemma built_set_nodes:
  "fresh node \<Longrightarrow> IsDir fi \<Longrightarrow> list_all (child_built (depth node)) ns \<Longrightarrow>
   well_built (set_nodes ns (set_info fi node)) \<and> depth_inv (set_nodes ns (set_info fi node))"
  by (cases node) (auto simp: fresh_def set_nodes_def set_info_def child_built_def list_all_iff)

lemma Node_sort_mset: "sort_permutes env \<Longrightarrow> mset (Node_sort env opts ns) = mset ns"
  by (simp add: sort_permutes_def Node_sort_def Let_def)

lemma Node_sort_list_all:
  "sort_permutes env \<Longrightarrow> list_all P (Node_sort env opts ns) = list_all P ns"
  using mset_eq_setD [OF Node_sort_mset, of env opts ns] by (simp add: list_all_iff)

lemma fresh_child: "fresh (Node None p d None [])"
  by (simp add: fresh_def)

lemma Visit_children_built:
  assumes vis: "\<And>nd v r d f v'. fresh nd \<Longrightarrow> visit nd v = Ok (r, d, f, v') \<Longrightarrow>
      well_built r \<and> depth_inv r \<and> depth r = depth nd \<and> v \<subseteq> v'"
  shows "Visit_children visit env opts node dm names ns dirs files vp = Ok (ns', dirs', files', vp') \<Longrightarrow>
      list_all (child_built (depth node)) ns \<Longrightarrow>
      list_all (child_built (depth node)) ns' \<and> vp \<subseteq> vp'"
proof (induction names arbitrary: ns dirs files vp)
  case Nil
  then show ?case by simp
next
  case (Cons name rest)
  show ?case
  proof (cases "\<not> All opts \<and> HasPrefix name ''.''")
    case True
    with Cons.prems have "Visit_children visit env opts node dm rest ns dirs files vp = Ok (ns', dirs', files', vp')"
      by simp
    from Cons.IH [OF this Cons.prems(2)] show ?thesis .
  next
    case False
    let ?c = "Node None (filepath_Join env (path node) name) (depth node + 1) None []"
    from False Cons.prems(1) obtain nn d f v1 keep where
      v: "visit ?c vp = Ok (nn, d, f, v1)" and
      k: "keep_child env opts dm nn f = Ok keep" and
      r: "(if keep then Visit_children visit env opts node dm rest (ns @ [nn]) (dirs + d) (files + f) v1
          else Visit_children visit env opts node dm rest ns dirs files v1) = Ok (ns', dirs', files', vp')"
      by (auto simp: bind_def split: result.splits prod.splits if_splits)
    from vis [OF fresh_child v] have b: "child_built (depth node) nn" and s: "vp \<subseteq> v1"
      by (simp_all add: child_built_def)
    show ?thesis
    proof (cases keep)
      case True
      with r have "Visit_children visit env opts node dm rest (ns @ [nn]) (dirs + d) (files + f) v1 = Ok (ns', dirs', files', vp')"
        by simp
      from Cons.IH [OF this] Cons.prems(2) b s show ?thesis by auto
    next
      case False
      with r have "Visit_children visit env opts node dm rest ns dirs files v1 = Ok (ns', dirs', files', vp')"
        by simp
      from Cons.IH [OF this Cons.prems(2)] s show ?thesis by auto
    qed
  qed
qed

lemma Visit_built:
  "sort_permutes env \<Longrightarrow> fresh node \<Longrightarrow> Visit n env opts node vp = Ok (r, d, f, vp') \<Longrightarrow>
   well_built r \<and> depth_inv r \<and> depth r = depth node \<and> vp \<subseteq> vp'"
proof (induction n arbitrary: node vp r d f vp')
  case 0
  then show ?case by simp
next
  case (Suc n)
  let ?vp1 = "case filepath_Abs env (path node) of Some p \<Rightarrow> insert (filepath_Clean env p) vp | None \<Rightarrow> vp"
  have s1: "vp \<subseteq> ?vp1" by (auto split: option.splits)
  have vis: "\<And>nd v r d f v'. fresh nd \<Longrightarrow> Visit n env opts nd v = Ok (r, d, f, v') \<Longrightarrow>
      well_built r \<and> depth_inv r \<and> depth r = depth nd \<and> v \<subseteq> v'"
    using Suc.IH [OF Suc.prems(1)] by blast
  note fr = Suc.prems(2)
  show ?case
  proof (cases "Stat (Fs opts) (path node)")
    case (Inl e)
    with Suc.prems(3) have "r = set_err e node" "vp' = ?vp1" by (auto simp: Let_def)
    with fresh_simps [OF fr] s1 show ?thesis by simp
  next
    case (Inr fi)
    show ?thesis
    proof (cases "\<not> IsDir fi \<or> (DeepLevel opts > 0 \<and> DeepLevel opts \<le> depth node)")
      case True
      with Inr Suc.prems(3) have "r = set_info fi node" "vp' = ?vp1"
        by (auto simp: Let_def split: if_splits)
      with fresh_simps [OF fr] s1 show ?thesis by simp
    next
      case False
      then have dir: "IsDir fi" by simp
      from False Inr Suc.prems(3) obtain dm where
        m: "match_dirs env opts (set_info fi node) = Ok dm" and
        rest: "(case dm of None \<Rightarrow> Ok (set_info fi node, (if depth node \<noteq> 0 then 1 else 0), 0, ?vp1)
          | Some dirMatch \<Rightarrow>
              (case ReadDir (Fs opts) (path node) of
                 Inl e \<Rightarrow> Ok (set_err e (set_info fi node), (if depth node \<noteq> 0 then 1 else 0), 0, ?vp1)
               | Inr names \<Rightarrow>
                   bind (Visit_children (Visit n env opts) env opts (set_info fi node) dirMatch
                           names [] (if depth node \<noteq> 0 then 1 else 0) 0 ?vp1)
                     (\<lambda>(ns, d, f, vp2).
                        Ok (set_nodes (if NoSort opts then ns else Node_sort env opts ns) (set_info fi node),
                            d, f, vp2)))) = Ok (r, d, f, vp')"
        by (auto simp: Let_def bind_def split: result.splits if_splits)
      show ?thesis
      proof (cases dm)
        case None
        with rest have "r = set_info fi node" "vp' = ?vp1" by auto
        with fresh_simps [OF fr] s1 show ?thesis by simp
      next
        case (Some dirMatch)
        show ?thesis
        proof (cases "ReadDir (Fs opts) (path node)")
          case (Inl e)
          with Some rest have "r = set_err e (set_info fi node)" "vp' = ?vp1" by auto
          with fresh_simps [OF fr] dir s1 show ?thesis by simp
        next
          case (Inr names)
          with Some rest obtain ns d2 f2 where
            c: "Visit_children (Visit n env opts) env opts (set_info fi node) dirMatch
                  names [] (if depth node \<noteq> 0 then 1 else 0) 0 ?vp1 = Ok (ns, d2, f2, vp')" and
            r: "r = set_nodes (if NoSort opts then ns else Node_sort env opts ns) (set_info fi node)"
            by (auto simp: bind_def split: result.splits)
          from Visit_children_built [OF vis c] have
            b: "list_all (child_built (depth node)) ns" and s2: "?vp1 \<subseteq> vp'" by simp_all
          have "list_all (child_built (depth node)) (if NoSort opts then ns else Node_sort env opts ns)"
            using b Node_sort_list_all [OF Suc.prems(1)] by simp
          from built_set_nodes [OF fr dir this] r s1 s2 show ?thesis by auto
        qed
      qed
    qed
  qed
qed

section \<open>The size aggregator on a built tree\<close>

lemma mset_ins_left: "mset (ins_left lt x ys) = add_mset x (mset ys)"
  by (induction ys) auto

lemma mset_foldl_ins_left: "mset (foldl (\<lambda>acc x. ins_left lt x acc) acc xs) = mset acc + mset xs"
  by (induction xs arbitrary: acc) (auto simp: mset_ins_left)

lemma mset_test_Sort: "mset (test_Sort lt xs) = mset xs"
  by (simp add: test_Sort_def mset_foldl_ins_left)

lemma sort_permutes_test_env: "sort_permutes test_env"
  by (simp add: sort_permutes_def test_env_def mset_test_Sort)

lemma Visit_error_tree:
  "Visit 2 test_env (test_opts error_fs) (Node None ''root'' 0 None []) {} = Ok (error_tree, 0, 3, error_paths)"
  by code_simp

lemma size_error_tree: "dirRecursiveSize opts0 error_tree = Ok (150, Some ''stat failed'')"
  by code_simp

lemma file_sizes_error_tree: "file_sizes error_tree = 150"
  by code_simp

text \<open>
  Claim C8. Take any node of a tree that \<^verbatim>\<open>Visit\<close> has built from a fresh root. On it
  \<^verbatim>\<open>dirRecursiveSize\<close> returns the sum (in \<^verbatim>\<open>int64\<close> arithmetic) of the sizes of all its
  descendants that are not directories: a directory adds what is below it and never
  its own size. The sum is complete also when an error is reported. The error returned
  is set whenever a descendant has a recorded error, and is then one of the recorded
  errors or the depth error of the aggregator itself.
\<close>

theorem dirRecursiveSize_sums_files:
  assumes "sort_permutes env" and "fresh root"
    and "Visit n env opts root vp = Ok (r, d, f, vp')"
    and "c \<in> set (r # descendants r)"
  shows "\<exists>er. dirRecursiveSize opts' c = Ok (file_sizes c, er)
    \<and> ((\<exists>x \<in> set (descendants c). err x \<noteq> None) \<longrightarrow> er \<noteq> None)
    \<and> (er = None \<or> er = Some ''Depth too high'' \<or> (\<exists>x \<in> set (descendants c). err x = er))"
proof -
  from Visit_built [OF assms(1-3)] have "well_built r" by simp
  from well_built_descendants [OF this assms(4)] have "well_built c" .
  from dirRecursiveSize_sum(1) [OF this, of opts'] show ?thesis
    by (auto simp: err_from_def descendants_below file_sizes_sizes_of)
qed

theorem dirRecursiveSize_sums_files_witness:
  "sort_permutes test_env \<and> fresh (Node None ''root'' 0 None [])
   \<and> Visit 2 test_env (test_opts error_fs) (Node None ''root'' 0 None []) {} = Ok (error_tree, 0, 3, error_paths)
   \<and> error_tree \<in> set (error_tree # descendants error_tree)
   \<and> dirRecursiveSize opts0 error_tree = Ok (file_sizes error_tree, Some ''stat failed'')
   \<and> file_sizes error_tree = 150
   \<and> (\<exists>x \<in> set (descendants error_tree). err x = Some ''stat failed'')"
proof -
  have m: "error_tree \<in> set (error_tree # descendants error_tree)" by simp
  from dirRecursiveSize_sums_files [OF sort_permutes_test_env fresh_child Visit_error_tree m, of opts0]
  have "dirRecursiveSize opts0 error_tree = Ok (file_sizes error_tree, Some ''stat failed'')"
    and "\<exists>x \<in> set (descendants error_tree). err x = Some ''stat failed''"
    using size_error_tree by auto
  then show ?thesis
    using sort_permutes_test_env fresh_child Visit_error_tree m file_sizes_error_tree by blast
qed

section \<open>The renderer on a tree whose links are not followed\<close>

lemma symlink_step_link_target:
  "symlink_step visit env opts node fi name vp =
     (if Mode fi AND ModeSymlink = ModeSymlink then
        (let vtarget0 = (case os_Readlink env (path node) of Some t \<Rightarrow> t | None \<Rightarrow> path node);
             tfi = (case Stat (Fs opts) (link_target env node) of Inr i \<Rightarrow> Some i | Inl e \<Rightarrow> None);
             vtarget = (if Colorize opts \<and> tfi \<noteq> None
                        then color env opts (Node tfi vtarget0 0 None []) vtarget0 else vtarget0);
             name1 = name @ '' -> '' @ vtarget
         in if FollowLink opts then
              (case (filepath_Abs env (link_target env node), tfi) of
                 (Some p, Some i) \<Rightarrow>
                   if IsDir i then
                     (if filepath_Clean env p \<notin> vp then
                        bind (visit (Node (Some i) (link_target env node) 0 None []) vp)
                          (\<lambda>(inf, d, f, vp'). Ok (name1, nodes inf, vp'))
                      else Ok (name1 @ '' [recursive, not followed]'', nodes node, vp))
                   else Ok (name1, nodes node, vp)
               | _ \<Rightarrow> Ok (name1, nodes node, vp))
            else Ok (name1, nodes node, vp))
      else Ok (name, nodes node, vp))"
  by (simp only: symlink_step_def link_target_def Let_def)

lemma symlink_step_not_followed:
  assumes "info node = Some fi" "err node = None" "\<not> would_follow env opts vp node"
  shows "\<exists>name'. symlink_step visit env opts node fi name vp = Ok (name', nodes node, vp)"
proof (cases "Mode fi AND ModeSymlink = ModeSymlink")
  case False
  then show ?thesis by (simp add: symlink_step_link_target)
next
  case True
  note link = True
  show ?thesis
  proof (cases "FollowLink opts")
    case False
    with link show ?thesis by (simp add: symlink_step_link_target Let_def)
  next
    case True
    note fl = True
    show ?thesis
    proof (cases "filepath_Abs env (link_target env node)")
      case None
      with link fl show ?thesis by (simp add: symlink_step_link_target Let_def)
    next
      case (Some p)
      note ab = Some
      show ?thesis
      proof (cases "Stat (Fs opts) (link_target env node)")
        case (Inl e)
        with link fl ab show ?thesis by (simp add: symlink_step_link_target Let_def)
      next
        case (Inr i)
        show ?thesis
        proof (cases "IsDir i")
          case False
          with link fl ab Inr show ?thesis by (simp add: symlink_step_link_target Let_def)
        next
          case True
          with assms link fl ab Inr have "filepath_Clean env p \<in> vp"
            by (simp add: would_follow_def is_link_def target_is_dir_def)
          with link fl ab Inr True show ?thesis by (simp add: symlink_step_link_target Let_def)
        qed
      qed
    qed
  qed
qed

lemma dirRecursiveSize_fuel:
  "dirRecursiveSize opts node \<noteq> OutOfFuel"
  "dirRecursiveSize_loop opts ns sz er \<noteq> OutOfFuel"
  by (induction opts node and opts ns sz er rule: dirRecursiveSize_dirRecursiveSize_loop.induct)
     (auto split: option.splits result.splits)

lemma props_fuel: "props env opts node fi \<noteq> OutOfFuel"
  using dirRecursiveSize_fuel(1) [of opts node]
  by (auto simp: props_def dir_props_def bind_def split: result.splits)

lemma preview_fuel: "preview env opts node \<noteq> OutOfFuel"
  by (auto simp: preview_def Let_def split: option.splits)

lemma preview_lines: "preview env opts node = Ok pv \<Longrightarrow> nonerror_lines pv = 0 \<and> error_lines pv = 0"
  by (auto simp: preview_def Let_def nonerror_lines_def error_lines_def split: option.splits if_splits)

lemma props_chunk_lines: "nonerror_lines (props_chunk ps) = 0 \<and> error_lines (props_chunk ps) = 0"
  by (simp add: props_chunk_def nonerror_lines_def error_lines_def)

lemma lines_append:
  "nonerror_lines (a @ b) = nonerror_lines a + nonerror_lines b"
  "error_lines (a @ b) = error_lines a + error_lines b"
  by (simp_all add: nonerror_lines_def error_lines_def)

lemma lines_single:
  "nonerror_lines [EndLine] = 1" "error_lines [EndLine] = 0"
  "nonerror_lines [NameText s] = 0" "error_lines [NameText s] = 0"
  "nonerror_lines [Branch s] = 0" "error_lines [Branch s] = 0"
  "nonerror_lines [ErrorLine s] = 0" "error_lines [ErrorLine s] = 1"
  "nonerror_lines [] = 0" "error_lines [] = 0"
  by (simp_all add: nonerror_lines_def error_lines_def)

lemma print_children_renders:
  "list_all (renders pr vp) cs \<Longrightarrow>
   print_children pr opts indent add cs vp = Ok (outs, cs', vp') \<Longrightarrow>
   cs' = cs \<and> vp' = vp \<and> nonerror_lines outs = sum_list (map ok_nodes cs)
     \<and> error_lines outs = sum_list (map failed_nodes cs)"
proof (induction cs arbitrary: add outs cs' vp')
  case Nil
  then show ?case by (simp add: lines_single)
next
  case (Cons c rest)
  let ?last = "rest = []"
  let ?glyph = "if NoIndent opts then [] else [Branch (indent @ (if ?last then glyph_corner else glyph_tee))]"
  let ?add = "if NoIndent opts then '''' else if ?last then ''    '' else add"
  from Cons.prems(2) obtain out c1 v1 outs1 rest1 where
    p: "pr (indent @ ?add) c vp = Ok (out, c1, v1)" and
    r: "print_children pr opts indent ?add rest v1 = Ok (outs1, rest1, vp')" and
    o: "outs = ?glyph @ out @ outs1" "cs' = c1 # rest1"
    by (auto simp: bind_def Let_def split: result.splits prod.splits)
  from Cons.prems(1) have rc: "renders pr vp c" and rr: "list_all (renders pr vp) rest" by simp_all
  from rc p have c1: "c1 = c" "v1 = vp" "nonerror_lines out = ok_nodes c" "error_lines out = failed_nodes c"
    by (auto simp: renders_def)
  from Cons.IH [OF rr] r c1(2) have
    "rest1 = rest" "vp' = vp" "nonerror_lines outs1 = sum_list (map ok_nodes rest)"
    "error_lines outs1 = sum_list (map failed_nodes rest)" by auto
  with c1 o show ?case by (simp add: lines_append lines_single)
qed

lemma print_children_fuel:
  "list_all (renders pr vp) cs \<Longrightarrow> (\<And>c ind. c \<in> set cs \<Longrightarrow> pr ind c vp \<noteq> OutOfFuel) \<Longrightarrow>
   print_children pr opts indent add cs vp \<noteq> OutOfFuel"
proof (induction cs arbitrary: add)
  case Nil
  show ?case by simp
next
  case (Cons c rest)
  define add' where "add' = (if NoIndent opts then '''' else if rest = [] then ''    '' else add)"
  from Cons.prems(1) have rc: "renders pr vp c" and rr: "list_all (renders pr vp) rest" by simp_all
  have nf: "pr (indent @ add') c vp \<noteq> OutOfFuel" using Cons.prems(2) by simp
  have ih: "print_children pr opts indent add' rest vp \<noteq> OutOfFuel"
    using Cons.IH [OF rr] Cons.prems(2) by simp
  have unf: "print_children pr opts indent add (c # rest) vp =
      bind (pr (indent @ add') c vp)
           (\<lambda>(out, nnode', vp1).
              bind (print_children pr opts indent add' rest vp1)
                (\<lambda>(outs, rest', vp2).
                   Ok ((if NoIndent opts then []
                        else [Branch (indent @ (if rest = [] then glyph_corner else glyph_tee))])
                       @ out @ outs, nnode' # rest', vp2)))"
    by (simp add: add'_def Let_def)
  show ?case
  proof (cases "pr (indent @ add') c vp")
    case (Ok x)
    obtain out c1 v1 where x: "x = (out, c1, v1)" by (cases x) auto
    with rc Ok have "v1 = vp" by (auto simp: renders_def)
    with Ok x ih show ?thesis
      unfolding unf by (auto simp: bind_def split: result.splits prod.splits)
  next
    case Panic
    then show ?thesis unfolding unf by (simp add: bind_def)
  next
    case OutOfFuel
    with nf show ?thesis by simp
  qed
qed

lemma lines_Cons:
  "nonerror_lines (c # cs) = (if c = EndLine then 1 else 0) + nonerror_lines cs"
  "error_lines (c # cs) = (if is_ErrorLine c then 1 else 0) + error_lines cs"
  by (simp_all add: nonerror_lines_def error_lines_def)

lemma ok_nodes_unfold:
  "ok_nodes r = (if err r = None then 1 else 0) + sum_list (map ok_nodes (nodes r))"
  "failed_nodes r = (if err r = None then 0 else 1) + sum_list (map failed_nodes (nodes r))"
  by (cases r; simp)+

lemma set_below: "c \<in> set ns \<Longrightarrow> set (c # descendants c) \<subseteq> set (below ns)"
  by (auto simp: below_def)

lemma guarded_child:
  "guarded env opts vp r \<Longrightarrow> c \<in> set (nodes r) \<Longrightarrow> guarded env opts vp c"
  using set_below [of c "nodes r"]
  by (auto simp: guarded_def list_all_iff descendants_below)

lemma guarded_self: "guarded env opts vp r \<Longrightarrow> \<not> would_follow env opts vp r"
  by (simp add: guarded_def)

lemma well_built_child: "well_built r \<Longrightarrow> c \<in> set (nodes r) \<Longrightarrow> well_built c"
  using well_built_nodes [of r] by (simp add: list_all_iff)

lemma set_nodes_same [simp]: "set_nodes (nodes r) r = r"
  by (cases r) (simp add: set_nodes_def)

lemma print_renders:
  "well_built r \<Longrightarrow> guarded env opts vp r \<Longrightarrow> renders (print n env opts) vp r"
proof (induction n arbitrary: r)
  case 0
  show ?case by (simp add: renders_def)
next
  case (Suc n)
  show ?case
  proof (cases "err r")
    case (Some e)
    with Suc.prems(1) have "nodes r = []" using well_built_err [of r] by simp
    with Some show ?thesis
      by (simp add: renders_def ok_nodes_unfold lines_single)
  next
    case None
    from well_built_file [OF Suc.prems(1) None] obtain fi where fi: "info r = Some fi" by blast
    have ch: "list_all (renders (print n env opts) vp) (nodes r)"
      using Suc.IH well_built_child [OF Suc.prems(1)] guarded_child [OF Suc.prems(2)]
      by (simp add: list_all_iff)
    show ?thesis
      unfolding renders_def
    proof (intro allI impI)
      fix ind out c' v'
      assume a: "print (Suc n) env opts ind r vp = Ok (out, c', v')"
      from symlink_step_not_followed [OF fi None guarded_self [OF Suc.prems(2)]]
      obtain name' where s: "symlink_step (Visit n env opts) env opts r fi (display_name env opts r fi) vp
          = Ok (name', nodes r, vp)" by blast
      from a None fi s obtain ps pv outs ns' where
        pv: "preview env opts r = Ok pv" and
        pc: "print_children (print n env opts) opts ind glyph_bar (nodes r) vp = Ok (outs, ns', v')" and
        o: "out = props_chunk ps @ [NameText name'] @ pv @ [EndLine] @ outs" "c' = set_nodes ns' r"
        by (auto simp: bind_def split: result.splits prod.splits)
      from print_children_renders [OF ch pc] have
        k: "ns' = nodes r" "v' = vp" "nonerror_lines outs = sum_list (map ok_nodes (nodes r))"
          "error_lines outs = sum_list (map failed_nodes (nodes r))" by simp_all
      from preview_lines [OF pv] props_chunk_lines [of ps] k o None
      show "c' = r \<and> v' = vp \<and> nonerror_lines out = ok_nodes r \<and> error_lines out = failed_nodes r"
        by (simp add: lines_append lines_Cons ok_nodes_unfold [of r])
    qed
  qed
qed

lemma height_child: "c \<in> set (nodes r) \<Longrightarrow> height c < height r"
proof -
  have "c \<in> set ns \<Longrightarrow> height c \<le> foldr (\<lambda>c m. max (height c) m) ns 0" for ns
    by (induction ns) auto
  then show "c \<in> set (nodes r) \<Longrightarrow> height c < height r"
    by (cases r) (auto simp: less_Suc_eq_le)
qed

lemma print_fuel:
  "well_built r \<Longrightarrow> guarded env opts vp r \<Longrightarrow> height r \<le> n \<Longrightarrow>
   print n env opts ind r vp \<noteq> OutOfFuel"
proof (induction n arbitrary: r ind)
  case 0
  then show ?case by (cases r) simp
next
  case (Suc n)
  show ?case
  proof (cases "err r")
    case (Some e)
    then show ?thesis by simp
  next
    case None
    from well_built_file [OF Suc.prems(1) None] obtain fi where fi: "info r = Some fi" by blast
    have ch: "list_all (renders (print n env opts) vp) (nodes r)"
      using print_renders well_built_child [OF Suc.prems(1)] guarded_child [OF Suc.prems(2)]
      by (simp add: list_all_iff)
    have cf: "\<And>c ind. c \<in> set (nodes r) \<Longrightarrow> print n env opts ind c vp \<noteq> OutOfFuel"
      using Suc.IH well_built_child [OF Suc.prems(1)] guarded_child [OF Suc.prems(2)]
        height_child [of _ r] Suc.prems(3) by fastforce
    from symlink_step_not_followed [OF fi None guarded_self [OF Suc.prems(2)]]
    obtain name' where s: "symlink_step (Visit n env opts) env opts r fi (display_name env opts r fi) vp
        = Ok (name', nodes r, vp)" by blast
    from print_children_fuel [OF ch cf] have
      pc: "print_children (print n env opts) opts ind glyph_bar (nodes r) vp \<noteq> OutOfFuel" by simp
    show ?thesis
      using None fi s pc props_fuel [of env opts r fi] preview_fuel [of env opts r]
      by (auto simp: bind_def split: result.splits prod.splits)
  qed
qed

section \<open>The counts of the visitor\<close>

lemma sum_list_Node_sort:
  fixes g :: "Node \<Rightarrow> int"
  shows "sort_permutes env \<Longrightarrow> sum_list (map g (Node_sort env opts ns)) = sum_list (map g ns)"
proof -
  assume "sort_permutes env"
  then have "mset (map g (Node_sort env opts ns)) = mset (map g ns)"
    by (simp add: Node_sort_mset)
  then have "sum_mset (mset (map g (Node_sort env opts ns))) = sum_mset (mset (map g ns))"
    by simp
  then show ?thesis by (simp only: sum_mset_sum_list)
qed

lemma counted_unfold:
  "counted r = (if info r = None then 0 else 1) + sum_list (map counted (nodes r))"
  "listfail_nodes r = (if err r \<noteq> None \<and> info r \<noteq> None then 1 else 0) + sum_list (map listfail_nodes (nodes r))"
  by (cases r; simp)+

lemma set_fields [simp]:
  "info (set_err e node) = info node" "info (set_info fi node) = Some fi"
  "info (set_nodes ns node) = info node"
  "nodes (set_err e node) = nodes node" "nodes (set_info fi node) = nodes node"
  "nodes (set_nodes ns node) = ns"
  "err (set_err e node) = Some e" "err (set_info fi node) = err node"
  "err (set_nodes ns node) = err node"
  by (simp_all add: set_err_def set_info_def set_nodes_def)

lemma Visit_children_counts:
  assumes vis: "\<And>nd v r d f v'. info nd = None \<Longrightarrow> fresh nd \<Longrightarrow> 0 < depth nd \<Longrightarrow>
      visit nd v = Ok (r, d, f, v') \<Longrightarrow> d + f = counted r"
    and dp: "0 \<le> depth node"
  shows "Visit_children visit env opts node dm names ns dirs files vp = Ok (ns', dirs', files', vp') \<Longrightarrow>
      dirs' + files' - sum_list (map counted ns') = dirs + files - sum_list (map counted ns)"
proof (induction names arbitrary: ns dirs files vp)
  case Nil
  then show ?case by simp
next
  case (Cons name rest)
  show ?case
  proof (cases "\<not> All opts \<and> HasPrefix name ''.''")
    case True
    with Cons.prems have "Visit_children visit env opts node dm rest ns dirs files vp = Ok (ns', dirs', files', vp')"
      by simp
    from Cons.IH [OF this] show ?thesis .
  next
    case False
    let ?c = "Node None (filepath_Join env (path node) name) (depth node + 1) None []"
    from False Cons.prems(1) obtain nn d f v1 keep where
      v: "visit ?c vp = Ok (nn, d, f, v1)" and
      r: "(if keep then Visit_children visit env opts node dm rest (ns @ [nn]) (dirs + d) (files + f) v1
          else Visit_children visit env opts node dm rest ns dirs files v1) = Ok (ns', dirs', files', vp')"
      by (auto simp: bind_def split: result.splits prod.splits if_splits)
    have "d + f = counted nn"
      using vis [OF _ fresh_child _ v] dp by simp
    with r Cons.IH [of "ns @ [nn]" "dirs + d" "files + f" v1] Cons.IH [of ns dirs files v1]
    show ?thesis by (cases keep) auto
  qed
qed

lemma Visit_counts:
  "sort_permutes env \<Longrightarrow> info node = None \<Longrightarrow> fresh node \<Longrightarrow> 0 \<le> depth node \<Longrightarrow>
   Visit n env opts node vp = Ok (r, d, f, vp') \<Longrightarrow>
   d + f = counted r - (if depth node = 0 \<and> is_dir r then 1 else 0)"
proof (induction n arbitrary: node vp r d f vp')
  case 0
  then show ?case by simp
next
  case (Suc n)
  let ?vp1 = "case filepath_Abs env (path node) of Some p \<Rightarrow> insert (filepath_Clean env p) vp | None \<Rightarrow> vp"
  let ?dirs = "if depth node \<noteq> 0 then 1 else 0 :: int"
  have vis: "\<And>nd v r d f v'. info nd = None \<Longrightarrow> fresh nd \<Longrightarrow> 0 < depth nd \<Longrightarrow>
      Visit n env opts nd v = Ok (r, d, f, v') \<Longrightarrow> d + f = counted r"
    using Suc.IH [OF Suc.prems(1)] by force
  from Suc.prems(3) have nn: "nodes node = []" by (simp add: fresh_def)
  note inone = Suc.prems(2)
  show ?case
  proof (cases "Stat (Fs opts) (path node)")
    case (Inl e)
    with Suc.prems(5) have "r = set_err e node" "d = 0" "f = 0" by (auto simp: Let_def)
    with nn inone show ?thesis by (simp add: counted_unfold is_dir_def)
  next
    case (Inr fi)
    show ?thesis
    proof (cases "IsDir fi")
      case False
      with Inr Suc.prems(5) have "r = set_info fi node" "d = 0" "f = 1"
        by (auto simp: Let_def)
      with nn False show ?thesis by (simp add: counted_unfold is_dir_def)
    next
      case True
      note dir = True
      show ?thesis
      proof (cases "DeepLevel opts > 0 \<and> DeepLevel opts \<le> depth node")
        case True
        with dir Inr Suc.prems(5) have "r = set_info fi node" "d = ?dirs" "f = 0"
          by (auto simp: Let_def)
        with nn dir show ?thesis by (simp add: counted_unfold is_dir_def)
      next
        case False
        from False dir Inr Suc.prems(5) obtain dm where
          rest: "(case dm of None \<Rightarrow> Ok (set_info fi node, ?dirs, 0, ?vp1)
            | Some dirMatch \<Rightarrow>
                (case ReadDir (Fs opts) (path node) of
                   Inl e \<Rightarrow> Ok (set_err e (set_info fi node), ?dirs, 0, ?vp1)
                 | Inr names \<Rightarrow>
                     bind (Visit_children (Visit n env opts) env opts (set_info fi node) dirMatch
                             names [] ?dirs 0 ?vp1)
                       (\<lambda>(ns, d, f, vp2).
                          Ok (set_nodes (if NoSort opts then ns else Node_sort env opts ns) (set_info fi node),
                              d, f, vp2)))) = Ok (r, d, f, vp')"
          by (auto simp: Let_def bind_def split: result.splits if_splits)
        show ?thesis
        proof (cases dm)
          case None
          with rest have "r = set_info fi node" "d = ?dirs" "f = 0" by auto
          with nn dir show ?thesis by (simp add: counted_unfold is_dir_def)
        next
          case (Some dirMatch)
          show ?thesis
          proof (cases "ReadDir (Fs opts) (path node)")
            case (Inl e)
            with Some rest have "r = set_err e (set_info fi node)" "d = ?dirs" "f = 0" by auto
            with nn dir show ?thesis by (simp add: counted_unfold is_dir_def)
          next
            case (Inr names)
            with Some rest obtain ns where
              c: "Visit_children (Visit n env opts) env opts (set_info fi node) dirMatch
                    names [] ?dirs 0 ?vp1 = Ok (ns, d, f, vp')" and
              r: "r = set_nodes (if NoSort opts then ns else Node_sort env opts ns) (set_info fi node)"
              by (auto simp: bind_def split: result.splits)
            from Visit_children_counts [OF vis _ c] Suc.prems(4)
            have "d + f - sum_list (map counted ns) = ?dirs" by simp
            moreover have "sum_list (map counted (if NoSort opts then ns else Node_sort env opts ns))
                = sum_list (map counted ns)"
              by (simp add: sum_list_Node_sort [OF Suc.prems(1)])
            ultimately show ?thesis using r dir
              by (auto simp: counted_unfold [of "set_nodes _ _"] is_dir_def split: if_splits)
          qed
        qed
      qed
    qed
  qed
qed

lemma counted_split: "well_built r \<Longrightarrow> counted r = ok_nodes r + listfail_nodes r"
proof (induction r rule: counted.induct)
  case (1 fi p d e ns)
  from 1(2) have "list_all well_built ns" by simp
  then have "\<And>c. c \<in> set ns \<Longrightarrow> counted c = ok_nodes c + listfail_nodes c"
    using 1(1) by (simp add: list_all_iff)
  then have "sum_list (map counted ns) = sum_list (map ok_nodes ns) + sum_list (map listfail_nodes ns)"
    by (induction ns) auto
  with 1(2) show ?case by (auto split: option.splits)
qed

section \<open>Counts and rendered lines\<close>

lemma not_FollowLink_guarded: "\<not> FollowLink opts \<Longrightarrow> guarded env opts vp r"
  by (simp add: guarded_def would_follow_def list_all_iff)

lemma root_counts:
  assumes wb: "well_built r"
  shows "counted r - (if is_dir r then 1 else 0)
       = ok_nodes r - (if err r = None \<and> is_dir r then 1 else 0) + sum_list (map listfail_nodes (nodes r))"
proof (cases "err r")
  case None
  then have "listfail_nodes r = sum_list (map listfail_nodes (nodes r))"
    by (simp add: counted_unfold)
  with counted_split [OF wb] None show ?thesis by simp
next
  case (Some e)
  with wb have n: "nodes r = []" using well_built_err [of r] by simp
  from wb Some have d: "is_dir r \<longleftrightarrow> info r \<noteq> None"
    by (cases r) (auto simp: is_dir_def split: option.splits)
  from Some n have "listfail_nodes r = (if info r \<noteq> None then 1 else 0)"
    by (simp add: counted_unfold)
  with counted_split [OF wb] Some n d show ?thesis by simp
qed

text \<open>
  Claim C1, as amended. Let \<^verbatim>\<open>Visit\<close> build the tree from the root that \<^verbatim>\<open>New\<close> makes
  and let \<^verbatim>\<open>Print\<close> render it, where \<^verbatim>\<open>Print\<close> follows no link of the tree: links are
  not followed, or every link to a directory resolves to a path that is already
  visited. Then the two counts add up to the number of lines without error, not
  counting the line of a root that is a directory, plus the number of directories below
  the root whose listing failed: such a directory is counted as a directory although
  its line is an error line. Every node of the tree has one line, so a child that the
  filters dropped is in neither.
\<close>

theorem visit_counts_and_rendered_lines:
  assumes "sort_permutes env"
    and "Visit n env opts (Node None p 0 None []) vp0 = Ok (r, d, f, vp)"
    and "guarded env opts vp r"
    and "Print m env opts r vp = Ok (out, r', vp')"
  shows "d + f = nonerror_lines out - (if err r = None \<and> is_dir r then 1 else 0)
                 + sum_list (map listfail_nodes (nodes r))
    \<and> error_lines out = failed_nodes r \<and> r' = r"
proof -
  from Visit_built [OF assms(1) fresh_child assms(2)] have wb: "well_built r" by simp
  from Visit_counts [OF assms(1) _ fresh_child _ assms(2)]
  have c: "d + f = counted r - (if is_dir r then 1 else 0)" by simp
  have "renders (print m env opts) vp r"
    by (rule print_renders [OF wb assms(3)])
  with assms(4) have l: "r' = r" "nonerror_lines out = ok_nodes r" "error_lines out = failed_nodes r"
    by (auto simp: renders_def Print_def)
  from c root_counts [OF wb] l show ?thesis by simp
qed

lemma Print_error_tree:
  "Print 2 test_env (test_opts error_fs) error_tree error_paths = Ok (error_out, error_tree, error_paths)"
  by code_simp

lemma error_tree_counts:
  "nonerror_lines error_out = 4" "err error_tree = None" "is_dir error_tree"
  "sum_list (map listfail_nodes (nodes error_tree)) = 0"
  by code_simp+

lemma test_opts_FollowLink: "\<not> FollowLink (test_opts fs)"
  by (simp add: test_opts_def)

lemma Visit_symlink_tree:
  "Visit 2 test_env symlink_opts (Node None ''root'' 0 None []) {} = Ok (symlink_tree, 1, 0, symlink_paths)"
  by code_simp

lemma print_symlink_tree:
  "print 2 test_env symlink_opts '''' symlink_tree symlink_paths = Ok (symlink_out, symlink_tree, symlink_paths)"
  by code_simp

lemma symlink_tree_facts:
  "well_built symlink_tree" "guarded test_env symlink_opts symlink_paths symlink_tree"
  "height symlink_tree = 2"
  "filepath_Abs test_env (path (Node None ''root'' 0 None [])) = Some ''/root''"
  "filepath_Clean test_env ''/root'' \<in> symlink_paths"
  by code_simp+

lemma Print_symlink_tree:
  "Print 2 test_env symlink_opts symlink_tree symlink_paths = Ok (symlink_out, symlink_tree, symlink_paths)"
  using print_symlink_tree by (simp add: Print_def)

lemma symlink_tree_counts:
  "nonerror_lines symlink_out = 2" "err symlink_tree = None" "is_dir symlink_tree"
  "sum_list (map listfail_nodes (nodes symlink_tree)) = 0" "FollowLink symlink_opts"
  by code_simp+

theorem visit_counts_and_rendered_lines_witness:
  "sort_permutes test_env
   \<and> Visit 2 test_env symlink_opts (Node None ''root'' 0 None []) {} = Ok (symlink_tree, 1, 0, symlink_paths)
   \<and> FollowLink symlink_opts \<and> guarded test_env symlink_opts symlink_paths symlink_tree
   \<and> Print 2 test_env symlink_opts symlink_tree symlink_paths = Ok (symlink_out, symlink_tree, symlink_paths)
   \<and> (1 :: int) + 0 = nonerror_lines symlink_out - 1 + 0
   \<and> error_lines symlink_out = failed_nodes symlink_tree
   \<and> Visit 2 test_env (test_opts error_fs) (Node None ''root'' 0 None []) {} = Ok (error_tree, 0, 3, error_paths)
   \<and> guarded test_env (test_opts error_fs) error_paths error_tree
   \<and> Print 2 test_env (test_opts error_fs) error_tree error_paths = Ok (error_out, error_tree, error_paths)
   \<and> (0 :: int) + 3 = nonerror_lines error_out - 1 + 0
   \<and> error_lines error_out = failed_nodes error_tree"
proof -
  have g: "guarded test_env (test_opts error_fs) error_paths error_tree"
    by (rule not_FollowLink_guarded [OF test_opts_FollowLink])
  from visit_counts_and_rendered_lines [OF sort_permutes_test_env Visit_symlink_tree
      symlink_tree_facts(2) Print_symlink_tree]
  have 1: "(1 :: int) + 0 = nonerror_lines symlink_out - 1 + 0"
    "error_lines symlink_out = failed_nodes symlink_tree"
    by (simp_all add: symlink_tree_counts)
  from visit_counts_and_rendered_lines [OF sort_permutes_test_env Visit_error_tree g Print_error_tree]
  have 2: "(0 :: int) + 3 = nonerror_lines error_out - 1 + 0"
    "error_lines error_out = failed_nodes error_tree"
    by (simp_all add: error_tree_counts)
  show ?thesis
    using 1 2 g sort_permutes_test_env Visit_symlink_tree symlink_tree_facts(2) symlink_tree_counts(5)
      Print_symlink_tree Visit_error_tree Print_error_tree by blast
qed

lemma Visit_unreadable:
  "Visit 2 test_env (test_opts unreadable_fs) (Node None ''root'' 0 None []) {}
     = Ok (unreadable_tree, 1, 0, {''/root'', ''/root/c''})"
  by code_simp

lemma Print_unreadable:
  "Print 2 test_env (test_opts unreadable_fs) unreadable_tree {''/root'', ''/root/c''}
     = Ok (unreadable_out, unreadable_tree, {''/root'', ''/root/c''})"
  by code_simp

lemma Visit_link:
  "Visit 2 link_env link_opts (Node None ''root'' 0 None []) {}
     = Ok (link_tree [], 0, 1, {''/root'', ''/root/l''})"
  by code_simp

lemma Print_link:
  "Print 4 link_env link_opts (link_tree []) {''/root'', ''/root/l''}
     = Ok (link_out, link_tree [target_child], {''/root'', ''/root/l'', ''/t'', ''/t/x''})"
  by code_simp

lemma not_spec_counts:
  "\<not> spec_counts_match 1 0 unreadable_out unreadable_tree"
  "\<not> spec_counts_match 0 1 link_out (link_tree [])"
  by code_simp+

text \<open>
  The claim as it was stated fails in two ways: a directory that can be examined but
  not listed is counted and rendered as an error line, and where \<^verbatim>\<open>print\<close> follows a
  link it writes the lines of the target's children, which are in no count.
\<close>

theorem visit_counts_and_rendered_lines_counterexample:
  "Visit 2 test_env (test_opts unreadable_fs) (Node None ''root'' 0 None []) {}
     = Ok (unreadable_tree, 1, 0, {''/root'', ''/root/c''})
   \<and> Print 2 test_env (test_opts unreadable_fs) unreadable_tree {''/root'', ''/root/c''}
     = Ok (unreadable_out, unreadable_tree, {''/root'', ''/root/c''})
   \<and> \<not> spec_counts_match 1 0 unreadable_out unreadable_tree
   \<and> Visit 2 link_env link_opts (Node None ''root'' 0 None []) {}
     = Ok (link_tree [], 0, 1, {''/root'', ''/root/l''})
   \<and> Print 4 link_env link_opts (link_tree []) {''/root'', ''/root/l''}
     = Ok (link_out, link_tree [target_child], {''/root'', ''/root/l'', ''/t'', ''/t/x''})
   \<and> \<not> spec_counts_match 0 1 link_out (link_tree [])"
  using Visit_unreadable Print_unreadable Visit_link Print_link not_spec_counts by blast

section \<open>Visited paths and followed links\<close>

lemma Visit_children_mono:
  assumes vis: "\<And>nd v r d f v'. visit nd v = Ok (r, d, f, v') \<Longrightarrow> v \<subseteq> v'"
  shows "Visit_children visit env opts node dm names ns dirs files vp = Ok (ns', dirs', files', vp') \<Longrightarrow>
      vp \<subseteq> vp'"
proof (induction names arbitrary: ns dirs files vp)
  case Nil
  then show ?case by simp
next
  case (Cons name rest)
  show ?case
  proof (cases "\<not> All opts \<and> HasPrefix name ''.''")
    case True
    with Cons.prems have "Visit_children visit env opts node dm rest ns dirs files vp = Ok (ns', dirs', files', vp')"
      by simp
    from Cons.IH [OF this] show ?thesis .
  next
    case False
    let ?c = "Node None (filepath_Join env (path node) name) (depth node + 1) None []"
    from False Cons.prems(1) obtain nn d f v1 keep where
      v: "visit ?c vp = Ok (nn, d, f, v1)" and
      r: "(if keep then Visit_children visit env opts node dm rest (ns @ [nn]) (dirs + d) (files + f) v1
          else Visit_children visit env opts node dm rest ns dirs files v1) = Ok (ns', dirs', files', vp')"
      by (auto simp: bind_def split: result.splits prod.splits if_splits)
    from vis [OF v] have "vp \<subseteq> v1" .
    with r Cons.IH [of "ns @ [nn]" "dirs + d" "files + f" v1] Cons.IH [of ns dirs files v1]
    show ?thesis by (cases keep) auto
  qed
qed

lemma Visit_mono_own:
  "Visit n env opts node vp = Ok (r, d, f, vp') \<Longrightarrow>
   vp \<subseteq> vp' \<and> (\<forall>p. filepath_Abs env (path node) = Some p \<longrightarrow> filepath_Clean env p \<in> vp')"
proof (induction n arbitrary: node vp r d f vp')
  case 0
  then show ?case by simp
next
  case (Suc n)
  let ?vp1 = "case filepath_Abs env (path node) of Some p \<Rightarrow> insert (filepath_Clean env p) vp | None \<Rightarrow> vp"
  have s1: "vp \<subseteq> ?vp1 \<and> (\<forall>p. filepath_Abs env (path node) = Some p \<longrightarrow> filepath_Clean env p \<in> ?vp1)"
    by (auto split: option.splits)
  have vis: "\<And>nd v r d f v'. Visit n env opts nd v = Ok (r, d, f, v') \<Longrightarrow> v \<subseteq> v'"
    using Suc.IH by blast
  have "?vp1 \<subseteq> vp'"
  proof (cases "Stat (Fs opts) (path node)")
    case (Inl e)
    with Suc.prems show ?thesis by (auto simp: Let_def)
  next
    case (Inr fi)
    show ?thesis
    proof (cases "\<not> IsDir fi \<or> (DeepLevel opts > 0 \<and> DeepLevel opts \<le> depth node)")
      case True
      with Inr Suc.prems have "vp' = ?vp1" by (auto simp: Let_def split: if_splits)
      then show ?thesis by simp
    next
      case False
      from False Inr Suc.prems obtain dm where
        rest: "(case dm of None \<Rightarrow> Ok (set_info fi node, (if depth node \<noteq> 0 then 1 else 0), 0, ?vp1)
          | Some dirMatch \<Rightarrow>
              (case ReadDir (Fs opts) (path node) of
                 Inl e \<Rightarrow> Ok (set_err e (set_info fi node), (if depth node \<noteq> 0 then 1 else 0), 0, ?vp1)
               | Inr names \<Rightarrow>
                   bind (Visit_children (Visit n env opts) env opts (set_info fi node) dirMatch
                           names [] (if depth node \<noteq> 0 then 1 else 0) 0 ?vp1)
                     (\<lambda>(ns, d, f, vp2).
                        Ok (set_nodes (if NoSort opts then ns else Node_sort env opts ns) (set_info fi node),
                            d, f, vp2)))) = Ok (r, d, f, vp')"
        by (auto simp: Let_def bind_def split: result.splits if_splits)
      show ?thesis
      proof (cases dm)
        case None
        with rest show ?thesis by auto
      next
        case (Some dirMatch)
        show ?thesis
        proof (cases "ReadDir (Fs opts) (path node)")
          case (Inl e)
          with Some rest show ?thesis by auto
        next
          case (Inr names)
          with Some rest obtain ns d2 f2 where
            c: "Visit_children (Visit n env opts) env opts (set_info fi node) dirMatch
                  names [] (if depth node \<noteq> 0 then 1 else 0) 0 ?vp1 = Ok (ns, d2, f2, vp')"
            by (auto simp: bind_def split: result.splits)
          from Visit_children_mono [OF vis c] show ?thesis .
        qed
      qed
    qed
  qed
  with s1 show ?case by blast
qed

lemma symlink_step_cases:
  assumes s: "symlink_step visit env opts node fi name vp = Ok (name', ns', vp')"
  shows "(ns' = nodes node \<and> vp' = vp)
    \<or> (\<exists>i r d f. IsDir i \<and> visit (Node (Some i) (link_target env node) 0 None []) vp = Ok (r, d, f, vp')
          \<and> ns' = nodes r)"
proof (cases "Mode fi AND ModeSymlink = ModeSymlink \<and> FollowLink opts")
  case False
  with s show ?thesis by (auto simp: symlink_step_link_target Let_def split: if_splits)
next
  case True
  note lf = True
  show ?thesis
  proof (cases "filepath_Abs env (link_target env node)")
    case None
    with s lf show ?thesis by (simp add: symlink_step_link_target Let_def)
  next
    case (Some p)
    note ab = Some
    show ?thesis
    proof (cases "Stat (Fs opts) (link_target env node)")
      case (Inl e)
      with s lf ab show ?thesis by (simp add: symlink_step_link_target Let_def)
    next
      case (Inr i)
      show ?thesis
      proof (cases "IsDir i \<and> filepath_Clean env p \<notin> vp")
        case False
        with s lf ab Inr show ?thesis
          by (auto simp: symlink_step_link_target Let_def split: if_splits)
      next
        case True
        with s lf ab Inr obtain r d f where
          "visit (Node (Some i) (link_target env node) 0 None []) vp = Ok (r, d, f, vp')" "ns' = nodes r"
          by (auto simp: symlink_step_link_target Let_def bind_def split: result.splits prod.splits)
        with True show ?thesis by blast
      qed
    qed
  qed
qed

lemma symlink_step_mono:
  assumes vis: "\<And>nd v r d f v'. visit nd v = Ok (r, d, f, v') \<Longrightarrow> v \<subseteq> v'"
    and s: "symlink_step visit env opts node fi name vp = Ok (name', ns', vp')"
  shows "vp \<subseteq> vp'"
  using symlink_step_cases [OF s] vis by blast

lemma print_children_mono:
  assumes pr: "\<And>ind c v out c' v'. pr ind c v = Ok (out, c', v') \<Longrightarrow> v \<subseteq> v'"
  shows "print_children pr opts indent add cs vp = Ok (outs, cs', vp') \<Longrightarrow> vp \<subseteq> vp'"
proof (induction cs arbitrary: add outs cs' vp)
  case Nil
  then show ?case by simp
next
  case (Cons c rest)
  define add' where "add' = (if NoIndent opts then '''' else if rest = [] then ''    '' else add)"
  from Cons.prems obtain out c1 v1 outs1 rest1 where
    p: "pr (indent @ add') c vp = Ok (out, c1, v1)" and
    r: "print_children pr opts indent add' rest v1 = Ok (outs1, rest1, vp')"
    by (auto simp: add'_def bind_def Let_def split: result.splits prod.splits)
  from pr [OF p] Cons.IH [OF r] show ?case by simp
qed

lemma print_mono:
  "print n env opts ind r vp = Ok (out, r', vp') \<Longrightarrow> vp \<subseteq> vp'"
proof (induction n arbitrary: ind r vp out r' vp')
  case 0
  then show ?case by simp
next
  case (Suc n)
  show ?case
  proof (cases "err r")
    case (Some e)
    with Suc.prems show ?thesis by simp
  next
    case None
    with Suc.prems obtain fi where fi: "info r = Some fi"
      by (cases "info r") auto
    from Suc.prems None fi obtain name ns v1 outs ns' where
      s: "symlink_step (Visit n env opts) env opts r fi (display_name env opts r fi) vp = Ok (name, ns, v1)" and
      pc: "print_children (print n env opts) opts ind glyph_bar ns v1 = Ok (outs, ns', vp')"
      by (auto simp: bind_def split: result.splits prod.splits)
    have vis: "\<And>nd v r d f v'. Visit n env opts nd v = Ok (r, d, f, v') \<Longrightarrow> v \<subseteq> v'"
      using Visit_mono_own by blast
    from symlink_step_mono [OF vis s] have "vp \<subseteq> v1" .
    moreover from print_children_mono [OF _ pc] Suc.IH have "v1 \<subseteq> vp'" by blast
    ultimately show ?thesis by simp
  qed
qed

lemma symlink_step_guard:
  assumes "Mode fi AND ModeSymlink = ModeSymlink" and "FollowLink opts"
    and "filepath_Abs env (link_target env node) = Some p"
    and "Stat (Fs opts) (link_target env node) = Inr i" and "IsDir i"
    and "filepath_Clean env p \<in> vp"
  shows "\<exists>text. symlink_step visit env opts node fi name vp =
           Ok (name @ '' -> '' @ text @ '' [recursive, not followed]'', nodes node, vp)"
  using assms by (simp add: symlink_step_link_target Let_def)

lemma depth_inv_nodes:
  "depth_inv r \<Longrightarrow> list_all (\<lambda>c. depth c = depth r + 1 \<and> depth_inv c) (nodes r)"
  by (cases r) simp

lemma symlink_step_depth:
  assumes sp: "sort_permutes env"
    and s: "symlink_step (Visit n env opts) env opts node fi name vp = Ok (name', ns', vp')"
  shows "ns' = nodes node \<or> list_all (\<lambda>c. depth c = 1 \<and> depth_inv c) ns'"
proof -
  from symlink_step_cases [OF s] show ?thesis
  proof
    assume "ns' = nodes node \<and> vp' = vp"
    then show ?thesis by simp
  next
    assume "\<exists>i r d f. IsDir i \<and> Visit n env opts (Node (Some i) (link_target env node) 0 None []) vp = Ok (r, d, f, vp')
          \<and> ns' = nodes r"
    then obtain i r d f where i: "IsDir i"
      and v: "Visit n env opts (Node (Some i) (link_target env node) 0 None []) vp = Ok (r, d, f, vp')"
      and n: "ns' = nodes r" by blast
    from i have "fresh (Node (Some i) (link_target env node) 0 None [])" by (simp add: fresh_def)
    from Visit_built [OF sp this v] have "depth_inv r" "depth r = 0" by simp_all
    with depth_inv_nodes [of r] n show ?thesis by simp
  qed
qed

section \<open>Depths\<close>

text \<open>
  Claim C3, as amended. In a tree that \<^verbatim>\<open>Visit\<close> builds from a fresh node every child
  is one level below its parent. The children that the link step of \<^verbatim>\<open>print\<close> gives
  to a node are either the ones it had or those of a fresh \<^verbatim>\<open>Visit\<close> rooted at the
  target with depth 0: these have depth 1, whatever the depth of the link, and the
  invariant holds below them.
\<close>

theorem child_depth_in_built_tree:
  assumes "sort_permutes env"
  shows "(fresh node \<and> Visit n env opts node vp = Ok (r, d, f, vp') \<longrightarrow>
            depth_inv r \<and> depth r = depth node)
    \<and> (symlink_step (Visit n env opts) env opts lnode fi name vp = Ok (name', ns', vp'') \<longrightarrow>
            ns' = nodes lnode \<or> list_all (\<lambda>c. depth c = 1 \<and> depth_inv c) ns')"
  using Visit_built [OF assms, of node n opts vp r d f vp'] symlink_step_depth [OF assms]
  by blast

lemma sort_permutes_link_env: "sort_permutes link_env"
  by (simp add: sort_permutes_def link_env_def test_env_def mset_test_Sort)

lemma link_step:
  "symlink_step (Visit 2 link_env link_opts) link_env link_opts (link_node [])
     (file_info (File ''l'' 0 ModeSymlink 0 None)) ''l'' link_paths
   = Ok (''l -> ../t'', [target_child], {''/root'', ''/root/l'', ''/t'', ''/t/x''})"
  by code_simp

lemma Visit_link_tree:
  "Visit 2 link_env link_opts (Node None ''root'' 0 None []) {} = Ok (link_tree [], 0, 1, link_paths)"
  by code_simp

lemma link_depths:
  "depth_inv (link_tree [])" "depth (link_tree []) = 0"
  "nodes (link_node []) = []"
  "list_all (\<lambda>c. depth c = 1 \<and> depth_inv c) [target_child]"
  by code_simp+

theorem child_depth_in_built_tree_witness:
  "sort_permutes link_env \<and> fresh (Node None ''root'' 0 None [])
   \<and> Visit 2 link_env link_opts (Node None ''root'' 0 None []) {} = Ok (link_tree [], 0, 1, link_paths)
   \<and> depth_inv (link_tree []) \<and> depth (link_tree []) = depth (Node None ''root'' 0 None [])
   \<and> symlink_step (Visit 2 link_env link_opts) link_env link_opts (link_node [])
        (file_info (File ''l'' 0 ModeSymlink 0 None)) ''l'' link_paths
      = Ok (''l -> ../t'', [target_child], {''/root'', ''/root/l'', ''/t'', ''/t/x''})
   \<and> [target_child] \<noteq> nodes (link_node [])
   \<and> list_all (\<lambda>c. depth c = 1 \<and> depth_inv c) [target_child]"
proof -
  note t = child_depth_in_built_tree [OF sort_permutes_link_env]
  have a: "depth_inv (link_tree []) \<and> depth (link_tree []) = depth (Node None ''root'' 0 None [])"
    using t [where node = "Node None ''root'' 0 None []" and n = 2 and opts = link_opts
        and vp = "{}" and r = "link_tree []" and d = 0 and f = 1 and vp' = link_paths]
      fresh_child Visit_link_tree by blast
  have n: "[target_child] \<noteq> nodes (link_node [])" by (simp add: link_depths)
  have b: "list_all (\<lambda>c. depth c = 1 \<and> depth_inv c) [target_child]"
    using t [where n = 2 and opts = link_opts and vp = link_paths and lnode = "link_node []"
        and fi = "file_info (File ''l'' 0 ModeSymlink 0 None)" and name = "''l''"
        and name' = "''l -> ../t''" and ns' = "[target_child]"
        and vp'' = "{''/root'', ''/root/l'', ''/t'', ''/t/x''}"]
      link_step n by blast
  show ?thesis
    using a b n sort_permutes_link_env fresh_child Visit_link_tree link_step by blast
qed

lemma Print_link_tree:
  "Print 4 link_env link_opts (link_tree []) link_paths
     = Ok (link_out, link_tree [target_child], {''/root'', ''/root/l'', ''/t'', ''/t/x''})"
  by code_simp

lemma link_depth_facts:
  "nodes (link_node [target_child]) = [target_child]" "depth target_child = 1"
  "depth (link_node [target_child]) = 1" "\<not> depth_inv (link_tree [target_child])"
  by code_simp+

text \<open>
  The claim as it was stated fails under a followed link: the link \<^verbatim>\<open>root/l\<close> is at
  depth 1, and so is the child \<^verbatim>\<open>x\<close> that \<^verbatim>\<open>print\<close> attaches to it.
\<close>

theorem child_depth_counterexample:
  "Visit 2 link_env link_opts (Node None ''root'' 0 None []) {} = Ok (link_tree [], 0, 1, link_paths)
   \<and> Print 4 link_env link_opts (link_tree []) link_paths
       = Ok (link_out, link_tree [target_child], {''/root'', ''/root/l'', ''/t'', ''/t/x''})
   \<and> nodes (link_node [target_child]) = [target_child]
   \<and> depth target_child = 1 \<and> depth (link_node [target_child]) = 1
   \<and> \<not> depth_inv (link_tree [target_child])"
  using Visit_link_tree Print_link_tree link_depth_facts by blast

section \<open>The cycle guard\<close>

text \<open>
  Claim C4. When links are followed and the cleaned absolute path of the directory that
  a link resolves to is among the visited paths, the link step of \<^verbatim>\<open>print\<close> appends
  the marker to the name and leaves the children and the visited paths as they are: no
  \<^verbatim>\<open>Visit\<close> is started. \<^verbatim>\<open>Visit\<close> and \<^verbatim>\<open>print\<close> only add to the visited paths, and
  \<^verbatim>\<open>Visit\<close> adds the path of the node it is called on. On a built tree in which every
  link that could be followed resolves to a visited path, \<^verbatim>\<open>print\<close> returns within a
  recursion depth equal to the height of the tree, and changes neither the tree nor the
  visited paths.
\<close>

theorem recursive_link_not_followed:
  "(Mode fi AND ModeSymlink = ModeSymlink \<and> FollowLink opts
      \<and> filepath_Abs env (link_target env node) = Some p
      \<and> Stat (Fs opts) (link_target env node) = Inr i \<and> IsDir i
      \<and> filepath_Clean env p \<in> vp \<longrightarrow>
      (\<exists>text. symlink_step visit env opts node fi name vp =
          Ok (name @ '' -> '' @ text @ '' [recursive, not followed]'', nodes node, vp)))
   \<and> (Visit n env opts nd vp = Ok (r, d, f, vp1) \<longrightarrow>
        vp \<subseteq> vp1 \<and> (\<forall>q. filepath_Abs env (path nd) = Some q \<longrightarrow> filepath_Clean env q \<in> vp1))
   \<and> (print m env opts ind t vp = Ok (out, t', vp2) \<longrightarrow> vp \<subseteq> vp2)
   \<and> (well_built t \<and> guarded env opts vp t \<longrightarrow>
        print (height t) env opts ind t vp \<noteq> OutOfFuel
        \<and> (\<forall>k out t' vp2. print k env opts ind t vp = Ok (out, t', vp2) \<longrightarrow> t' = t \<and> vp2 = vp))"
proof -
  have 1: "Mode fi AND ModeSymlink = ModeSymlink \<and> FollowLink opts
      \<and> filepath_Abs env (link_target env node) = Some p
      \<and> Stat (Fs opts) (link_target env node) = Inr i \<and> IsDir i
      \<and> filepath_Clean env p \<in> vp \<longrightarrow>
      (\<exists>text. symlink_step visit env opts node fi name vp =
          Ok (name @ '' -> '' @ text @ '' [recursive, not followed]'', nodes node, vp))"
    using symlink_step_guard [of fi opts env node p i vp visit name] by blast
  have 2: "Visit n env opts nd vp = Ok (r, d, f, vp1) \<longrightarrow>
        vp \<subseteq> vp1 \<and> (\<forall>q. filepath_Abs env (path nd) = Some q \<longrightarrow> filepath_Clean env q \<in> vp1)"
    using Visit_mono_own [of n env opts nd vp r d f vp1] by blast
  have 3: "print m env opts ind t vp = Ok (out, t', vp2) \<longrightarrow> vp \<subseteq> vp2"
    using print_mono [of m env opts ind t vp out t' vp2] by blast
  have 4: "well_built t \<and> guarded env opts vp t \<longrightarrow>
        print (height t) env opts ind t vp \<noteq> OutOfFuel
        \<and> (\<forall>k out t' vp2. print k env opts ind t vp = Ok (out, t', vp2) \<longrightarrow> t' = t \<and> vp2 = vp)"
  proof (intro impI conjI allI)
    assume a: "well_built t \<and> guarded env opts vp t"
    then show "print (height t) env opts ind t vp \<noteq> OutOfFuel"
      using print_fuel [of t env opts vp "height t" ind] by simp
    fix k out t' vp2
    assume p: "print k env opts ind t vp = Ok (out, t', vp2)"
    from a have "renders (print k env opts) vp t" by (simp add: print_renders)
    with p show "t' = t" "vp2 = vp" by (auto simp: renders_def)
  qed
  from 1 2 3 4 show ?thesis by (intro conjI)
qed

lemma symlink_child_facts:
  "Mode (file_info (File ''symlink'' 0 ModeSymlink 0 (Some []))) AND ModeSymlink = ModeSymlink"
  "FollowLink symlink_opts"
  "filepath_Abs test_env (link_target test_env symlink_child) = Some ''/root/symlink''"
  "Stat (Fs symlink_opts) (link_target test_env symlink_child)
     = Inr (file_info (File ''symlink'' 0 ModeSymlink 0 (Some [])))"
  "IsDir (file_info (File ''symlink'' 0 ModeSymlink 0 (Some [])))"
  "filepath_Clean test_env ''/root/symlink'' \<in> symlink_paths"
  by code_simp+

lemma symlink_step_child:
  "symlink_step (Visit 0 test_env symlink_opts) test_env symlink_opts symlink_child
     (file_info (File ''symlink'' 0 ModeSymlink 0 (Some []))) ''symlink'' symlink_paths
   = Ok (''symlink'' @ '' -> '' @ ''root/symlink'' @ '' [recursive, not followed]'', nodes symlink_child, symlink_paths)"
  by code_simp

theorem recursive_link_not_followed_witness:
  "Mode (file_info (File ''symlink'' 0 ModeSymlink 0 (Some []))) AND ModeSymlink = ModeSymlink
   \<and> FollowLink symlink_opts
   \<and> filepath_Abs test_env (link_target test_env symlink_child) = Some ''/root/symlink''
   \<and> Stat (Fs symlink_opts) (link_target test_env symlink_child)
       = Inr (file_info (File ''symlink'' 0 ModeSymlink 0 (Some [])))
   \<and> IsDir (file_info (File ''symlink'' 0 ModeSymlink 0 (Some [])))
   \<and> filepath_Clean test_env ''/root/symlink'' \<in> symlink_paths
   \<and> symlink_step (Visit 0 test_env symlink_opts) test_env symlink_opts symlink_child
        (file_info (File ''symlink'' 0 ModeSymlink 0 (Some []))) ''symlink'' symlink_paths
      = Ok (''symlink'' @ '' -> '' @ ''root/symlink'' @ '' [recursive, not followed]'',
            nodes symlink_child, symlink_paths)
   \<and> Visit 2 test_env symlink_opts (Node None ''root'' 0 None []) {} = Ok (symlink_tree, 1, 0, symlink_paths)
   \<and> filepath_Clean test_env ''/root'' \<in> symlink_paths
   \<and> print 2 test_env symlink_opts '''' symlink_tree symlink_paths
       = Ok (symlink_out, symlink_tree, symlink_paths)
   \<and> symlink_paths \<subseteq> symlink_paths
   \<and> well_built symlink_tree \<and> guarded test_env symlink_opts symlink_paths symlink_tree
   \<and> print (height symlink_tree) test_env symlink_opts '''' symlink_tree symlink_paths \<noteq> OutOfFuel"
proof -
  note t = recursive_link_not_followed [where env = test_env and opts = symlink_opts
      and vp = symlink_paths and t = symlink_tree and ind = "''''"]
  have "print (height symlink_tree) test_env symlink_opts '''' symlink_tree symlink_paths \<noteq> OutOfFuel"
    using t symlink_tree_facts(1,2) by blast
  then show ?thesis
    using symlink_child_facts symlink_step_child Visit_symlink_tree print_symlink_tree
      symlink_tree_facts by simp
qed

section \<open>The sorter: reverse and ties\<close>

text \<open>
  An exchange of two neighbours of which the right one is less than the left one leaves
  the order of two tied elements as it is; the insertion sort makes no other exchange.
\<close>

lemma length_Swap [simp]: "length (Swap i j xs) = length xs"
  by (simp add: Swap_def)

lemma Swap_append:
  "length ys = k \<Longrightarrow> Swap (Suc k) k (ys @ y # x # zs) = ys @ x # y # zs"
  by (simp add: Swap_def list_update_append nth_append)

lemma Swap_adjacent:
  assumes "0 < j" "j < length xs"
  shows "\<exists>ys zs. xs = ys @ xs ! (j - 1) # xs ! j # zs \<and> Swap j (j - 1) xs = ys @ xs ! j # xs ! (j - 1) # zs"
proof -
  obtain k where k: "j = Suc k" using assms(1) by (cases j) auto
  define ys where "ys = take k xs"
  define zs where "zs = drop (Suc (Suc k)) xs"
  have 1: "xs = ys @ xs ! k # xs ! Suc k # zs"
    using assms(2) k by (simp add: Cons_nth_drop_Suc ys_def zs_def)
  have len: "length ys = k" using assms k by (simp add: ys_def)
  have "Swap (Suc k) k (ys @ xs ! k # xs ! Suc k # zs) = ys @ xs ! Suc k # xs ! k # zs"
    using len by (rule Swap_append)
  with 1 have "Swap (Suc k) k xs = ys @ xs ! Suc k # xs ! k # zs" by simp
  with 1 k show ?thesis by auto
qed

lemma pair_order_Swap:
  assumes "0 < j" "j < length xs" "lt (xs ! j) (xs ! (j - 1))" "tied lt a b"
  shows "pair_order a b (Swap j (j - 1) xs) = pair_order a b xs"
proof -
  from Swap_adjacent [OF assms(1,2)] obtain ys zs where
    xs: "xs = ys @ xs ! (j - 1) # xs ! j # zs"
    and sw: "Swap j (j - 1) xs = ys @ xs ! j # xs ! (j - 1) # zs" by blast
  have "pair_order a b (ys @ xs ! j # xs ! (j - 1) # zs) = pair_order a b (ys @ xs ! (j - 1) # xs ! j # zs)"
    using assms(3,4) by (auto simp: pair_order_def tied_def)
  then show ?thesis using xs sw by simp
qed

lemma insertion_inner_length: "length (insertion_inner lt a j xs) = length xs"
proof (induction lt a j xs rule: insertion_inner.induct)
  case (1 lt a j xs)
  show ?case
  proof (cases "j > a \<and> Less lt xs j (j - 1)")
    case True
    then have "insertion_inner lt a j xs = insertion_inner lt a (j - 1) (Swap j (j - 1) xs)"
      by (simp add: insertion_inner.simps [of lt a j xs])
    with 1 True show ?thesis by simp
  next
    case False
    then have "insertion_inner lt a j xs = xs"
      by (auto simp: insertion_inner.simps [of lt a j xs])
    then show ?thesis by simp
  qed
qed

lemma insertion_inner_pair_order:
  "j < length xs \<Longrightarrow> tied lt a b \<Longrightarrow>
   pair_order a b (insertion_inner lt lo j xs) = pair_order a b xs"
proof (induction lt lo j xs rule: insertion_inner.induct)
  case (1 lt lo j xs)
  show ?case
  proof (cases "j > lo \<and> Less lt xs j (j - 1)")
    case True
    then have unf: "insertion_inner lt lo j xs = insertion_inner lt lo (j - 1) (Swap j (j - 1) xs)"
      by (simp add: insertion_inner.simps [of lt lo j xs])
    have "j - 1 < length (Swap j (j - 1) xs)" using 1(2) by simp
    then have "pair_order a b (insertion_inner lt lo (j - 1) (Swap j (j - 1) xs))
        = pair_order a b (Swap j (j - 1) xs)"
      using 1(3) by (rule 1(1) [OF True])
    moreover have "pair_order a b (Swap j (j - 1) xs) = pair_order a b xs"
    proof (rule pair_order_Swap [where lt = lt])
      show "0 < j" using True by simp
      show "j < length xs" by (rule 1(2))
      show "lt (xs ! j) (xs ! (j - 1))" using True by (simp add: Less_def)
      show "tied lt a b" by (rule 1(3))
    qed
    ultimately show ?thesis using unf by simp
  next
    case False
    then have "insertion_inner lt lo j xs = xs"
      by (auto simp: insertion_inner.simps [of lt lo j xs])
    then show ?thesis by simp
  qed
qed

lemma insertion_outer_pair_order:
  "b \<le> length xs \<Longrightarrow> tied lt x y \<Longrightarrow>
   pair_order x y (insertion_outer lt a b i xs) = pair_order x y xs"
proof (induction lt a b i xs rule: insertion_outer.induct)
  case (1 lt a b i xs)
  show ?case
  proof (cases "i < b")
    case True
    then have unf: "insertion_outer lt a b i xs
        = insertion_outer lt a b (Suc i) (insertion_inner lt a i xs)"
      by (simp add: insertion_outer.simps [of lt a b i xs])
    have "b \<le> length (insertion_inner lt a i xs)"
      using 1(2) by (simp add: insertion_inner_length)
    then have "pair_order x y (insertion_outer lt a b (Suc i) (insertion_inner lt a i xs))
        = pair_order x y (insertion_inner lt a i xs)"
      using 1(3) by (rule 1(1) [OF True])
    moreover have "pair_order x y (insertion_inner lt a i xs) = pair_order x y xs"
      using True 1(2,3) by (intro insertion_inner_pair_order) auto
    ultimately show ?thesis using unf by simp
  next
    case False
    then have "insertion_outer lt a b i xs = xs"
      by (simp add: insertion_outer.simps [of lt a b i xs])
    then show ?thesis by simp
  qed
qed

lemma Sort_small:
  "length xs \<le> 12 \<Longrightarrow>
   Sort lt xs = Some (if length xs \<le> 1 then xs else insertionSort lt xs 0 (length xs))"
  by (simp add: Sort_def Let_def pdqsort.simps [of lt xs 0 "length xs"])

lemma Sort_small_pair_order:
  assumes "length xs \<le> 12" "tied lt a b"
  shows "\<exists>ys. Sort lt xs = Some ys \<and> pair_order a b ys = pair_order a b xs"
  using assms by (simp add: Sort_small insertionSort_def insertion_outer_pair_order)

lemma tied_Reverse: "tied (sort_Reverse lt) a b = tied lt a b"
  by (auto simp: tied_def sort_Reverse_def)

lemma sort_fn_ReverSort: "sort_fn env (opts\<lparr>ReverSort := r\<rparr>) = sort_fn env opts"
  by (simp add: sort_fn_def)

lemma runs_Sort_go_env: "runs_Sort go_env"
  by (simp add: runs_Sort_def go_env_def)

text \<open>
  Claim C5, as amended. The sort of the siblings is a function of the comparator and of
  the listing, and the reverse flag inverts only the comparator's verdict on a pair: the
  reverse sort is \<^verbatim>\<open>sort.Sort\<close> with the arguments of the comparator exchanged. The sort
  is not stable in general. Where the directory has at most 12 entries, two siblings
  that the active comparator puts in neither order keep the order of the listing, under
  the forward sort and under the reverse sort alike.
\<close>

theorem Node_sort_reverse_and_ties:
  assumes "runs_Sort env"
    and "length ns \<le> 12"
    and "tied (ByFunc_Less (sort_fn env opts)) a b"
  shows "Node_sort env (opts\<lparr>ReverSort := True\<rparr>) ns
           = sort_Sort env (\<lambda>x y. ByFunc_Less (sort_fn env opts) y x) ns
         \<and> pair_order a b (Node_sort env (opts\<lparr>ReverSort := True\<rparr>) ns) = pair_order a b ns
         \<and> pair_order a b (Node_sort env (opts\<lparr>ReverSort := False\<rparr>) ns) = pair_order a b ns"
proof -
  let ?lt = "ByFunc_Less (sort_fn env opts)"
  have flip: "sort_Reverse ?lt = (\<lambda>x y. ?lt y x)"
    by (rule ext, rule ext) (simp add: sort_Reverse_def)
  have bwd: "Node_sort env (opts\<lparr>ReverSort := True\<rparr>) ns = sort_Sort env (sort_Reverse ?lt) ns"
    by (simp add: Node_sort_def sort_fn_ReverSort)
  have fwd: "Node_sort env (opts\<lparr>ReverSort := False\<rparr>) ns = sort_Sort env ?lt ns"
    by (simp add: Node_sort_def sort_fn_ReverSort)
  from Sort_small_pair_order [OF assms(2,3)] obtain ys where
    ys: "Sort ?lt ns = Some ys" "pair_order a b ys = pair_order a b ns" by blast
  from assms(1) ys(1) have 1: "sort_Sort env ?lt ns = ys"
    by (simp add: runs_Sort_def)
  have "tied (sort_Reverse ?lt) a b" using assms(3) by (simp only: tied_Reverse)
  from Sort_small_pair_order [OF assms(2) this] obtain zs where
    zs: "Sort (sort_Reverse ?lt) ns = Some zs" "pair_order a b zs = pair_order a b ns" by blast
  from assms(1) zs(1) have 2: "sort_Sort env (sort_Reverse ?lt) ns = zs"
    by (simp add: runs_Sort_def)
  show ?thesis using bwd fwd 1 2 ys(2) zs(2) flip by simp
qed

theorem Node_sort_reverse_and_ties_witness:
  "runs_Sort go_env \<and> length three \<le> 12
   \<and> tied (ByFunc_Less (sort_fn go_env ctime_opts)) (changed_at ''a'' 1) (changed_at ''g'' 1)
   \<and> pair_order (changed_at ''a'' 1) (changed_at ''g'' 1)
        (Node_sort go_env (ctime_opts\<lparr>ReverSort := True\<rparr>) three)
      = [changed_at ''a'' 1, changed_at ''g'' 1]
   \<and> pair_order (changed_at ''a'' 1) (changed_at ''g'' 1)
        (Node_sort go_env (ctime_opts\<lparr>ReverSort := False\<rparr>) three)
      = [changed_at ''a'' 1, changed_at ''g'' 1]"
proof -
  have len: "length three \<le> 12" by (simp add: three_def)
  have tie: "tied (ByFunc_Less (sort_fn go_env ctime_opts)) (changed_at ''a'' 1) (changed_at ''g'' 1)"
    by code_simp
  have po: "pair_order (changed_at ''a'' 1) (changed_at ''g'' 1) three
      = [changed_at ''a'' 1, changed_at ''g'' 1]"
    by code_simp
  have "pair_order (changed_at ''a'' 1) (changed_at ''g'' 1)
          (Node_sort go_env (ctime_opts\<lparr>ReverSort := True\<rparr>) three)
        = pair_order (changed_at ''a'' 1) (changed_at ''g'' 1) three
      \<and> pair_order (changed_at ''a'' 1) (changed_at ''g'' 1)
          (Node_sort go_env (ctime_opts\<lparr>ReverSort := False\<rparr>) three)
        = pair_order (changed_at ''a'' 1) (changed_at ''g'' 1) three"
    using Node_sort_reverse_and_ties [OF runs_Sort_go_env len tie] by (rule conjunct2)
  with runs_Sort_go_env len tie po show ?thesis by simp
qed

text \<open>
  With thirteen entries sorted by change time, of which the last one changed before the
  twelve others, the entries \<^verbatim>\<open>a\<close> and \<^verbatim>\<open>g\<close> have the same change time; the forward
  sort puts \<^verbatim>\<open>g\<close> before \<^verbatim>\<open>a\<close>, and the reverse sort \<^verbatim>\<open>a\<close> before \<^verbatim>\<open>g\<close>.
\<close>

theorem Node_sort_ties_counterexample:
  "tied (ByFunc_Less (sort_fn go_env ctime_opts)) (changed_at ''a'' 1) (changed_at ''g'' 1)
   \<and> pair_order (changed_at ''a'' 1) (changed_at ''g'' 1) (Node_sort go_env ctime_opts thirteen)
      = [changed_at ''g'' 1, changed_at ''a'' 1]
   \<and> pair_order (changed_at ''a'' 1) (changed_at ''g'' 1)
        (Node_sort go_env (ctime_opts\<lparr>ReverSort := True\<rparr>) thirteen)
      = [changed_at ''a'' 1, changed_at ''g'' 1]"
  by code_simp

end
